theory Spec2Isabelle
  imports Main "HOL-Library.AList"
begin

section \<open>Data model of the asynchronous pipeline scheduler\<close>

text \<open>
  The scheduler of \<^verbatim>\<open>async_pipeline.py\<close> (class \<^verbatim>\<open>AsyncPipeline\<close> and the helper
  \<^verbatim>\<open>run_async_pipeline\<close>).  Python dictionaries are association lists with the dictionary
  discipline of \<open>AList.update\<close> (overwrite in place, else append) and \<open>AList.delete\<close>;
  a lookup is \<open>map_of\<close>.  Exceptions are values of \<open>error\<close>.
\<close>

type_synonym name = string
type_synonym sock = string

datatype val = VEmpty | VInt int | VStr string | VList "val list"

type_synonym pydict = "(sock \<times> val) list"
type_synonym store = "(name \<times> pydict) list"
type_synonym outputs = "(name \<times> pydict) list"

datatype error =
    PipelineMaxComponentRuns
  | PipelineRuntimeError
  | ComponentRaised
  | KeyError
  | IndexError
  | ValueError

text \<open>What one call of a component's \<^verbatim>\<open>run\<close> / \<^verbatim>\<open>run_async\<close> can do: raise, return something
  that is not a mapping, or return a mapping.\<close>

datatype outcome = Raised | NotMapping | Returned pydict

record input_socket =
  sock_name :: sock
  senders :: "name list"
  is_variadic :: bool
  default_value :: val

text \<open>
  The collaborators that the scheduler imports from the base pipeline
  (\<^verbatim>\<open>haystack.core.pipeline.base\<close>) and the graph are parameters: every theorem below holds
  for whatever they compute.  A component may be stateful, so \<open>invoke\<close> threads a state
  \<open>'c\<close> through the calls.  A queue entry \<^verbatim>\<open>(name, comp)\<close> is represented by its name,
  since \<^verbatim>\<open>comp\<close> is always \<^verbatim>\<open>graph.nodes[name]["instance"]\<close>.
\<close>

record 'c env =
  max_runs_per_component :: int
  node_names :: "name list"
  topological_order :: "name list"
  components_in_cycles :: "name \<Rightarrow> name list list"
  input_sockets :: "name \<Rightarrow> (sock \<times> input_socket) list"
  output_receivers :: "name \<Rightarrow> (sock \<times> name list) list"
  invoke :: "name \<Rightarrow> pydict \<Rightarrow> 'c \<Rightarrow> outcome \<times> 'c"
  is_lazy_variadic :: "name \<Rightarrow> bool"
  component_has_enough_inputs_to_run :: "name \<Rightarrow> store \<Rightarrow> bool"
  is_stuck_in_a_loop :: "name list \<Rightarrow> bool"
  find_next_runnable_component :: "store \<Rightarrow> name list \<Rightarrow> name"
  find_next_runnable_lazy_variadic_or_default_component :: "name list \<Rightarrow> name"
  add_missing_input_defaults :: "name \<Rightarrow> store \<Rightarrow> store"
  find_components_that_will_receive_no_input :: "name \<Rightarrow> pydict \<Rightarrow> store \<Rightarrow> name list"
  find_receivers_from :: "name \<Rightarrow> (name \<times> sock \<times> sock) list"
  distribute_output ::
    "(name \<times> sock \<times> sock) list \<Rightarrow> pydict \<Rightarrow> store \<Rightarrow> name list \<Rightarrow> name list
      \<Rightarrow> pydict \<times> store \<times> name list \<times> name list"
  enqueue_component :: "name \<Rightarrow> name list \<Rightarrow> name list \<Rightarrow> name list \<times> name list"
  dequeue_component :: "name \<Rightarrow> name list \<Rightarrow> name list \<Rightarrow> name list \<times> name list"
  enqueue_waiting_component :: "name \<Rightarrow> name list \<Rightarrow> name list"
  dequeue_waiting_component :: "name \<Rightarrow> name list \<Rightarrow> name list"

text \<open>
  One frame of the scheduler.  \<open>visits\<close>, \<open>components_inputs\<close>, \<open>comp_state\<close>, the stream
  \<open>yielded\<close> so far and the number of \<^verbatim>\<open>RuntimeWarning\<close>s are shared between \<^verbatim>\<open>run\<close> and
  \<^verbatim>\<open>_run_subgraph\<close>; the queues and the two witnesses are locals of whichever loop owns
  the frame; \<open>final_outputs\<close> is a local of \<^verbatim>\<open>run\<close>, \<open>subgraph_outputs\<close> and
  \<open>cycle_received_inputs\<close> are locals of \<^verbatim>\<open>_run_subgraph\<close>.  \<open>drains\<close> is a history
  variable that the source does not have: the number of times the progress check found the
  run queue drained since the witnesses were last reset.  No function reads it.
\<close>

record 'c sched =
  visits :: "name \<Rightarrow> nat"
  components_inputs :: store
  comp_state :: 'c
  yielded :: "outputs list"
  warnings :: nat
  run_queue :: "name list"
  waiting_queue :: "name list"
  before_last_waiting_queue :: "name set option"
  last_waiting_queue :: "name set option"
  drains :: nat
  final_outputs :: outputs
  subgraph_outputs :: outputs
  cycle_received_inputs :: bool

text \<open>How a loop body leaves: by an exception, by \<^verbatim>\<open>break\<close>, by \<^verbatim>\<open>continue\<close>, or by
  reaching its end.\<close>

datatype 'c flow =
    Raise error "'c sched"
  | LoopBreak "'c sched"
  | LoopContinue "'c sched"
  | FallThrough "'c sched"

text \<open>How a loop ends: by an exception, by the stuck-loop \<^verbatim>\<open>break\<close>, or because the loop
  condition became false.\<close>

datatype 'c result =
    Failed error "'c sched"
  | Stuck "'c sched"
  | Completed "'c sched"

section \<open>\<^verbatim>\<open>AsyncPipeline._run_component\<close>\<close>

text \<open>Lines 127--131: every declared socket whose name is a key of \<^verbatim>\<open>inputs\<close> and that is
  variadic is set to the empty list.\<close>

fun reset_variadic :: "input_socket list \<Rightarrow> pydict \<Rightarrow> pydict" where
  "reset_variadic [] inputs = inputs"
| "reset_variadic (s # ss) inputs =
     (if sock_name s \<notin> set (map fst inputs) then reset_variadic ss inputs
      else if is_variadic s then reset_variadic ss (AList.update (sock_name s) (VList []) inputs)
      else reset_variadic ss inputs)"

text \<open>
  The caller passes \<^verbatim>\<open>components_inputs[name]\<close>, the dictionary object of the store itself
  (a missing name is a \<^verbatim>\<open>KeyError\<close> at the call), so the reset of line 131 writes through
  to the store.  The visit counter is incremented after the component returned (line 124)
  and before the result is checked to be a mapping (line 133).
\<close>

definition run_component :: "'c env \<Rightarrow> name \<Rightarrow> 'c sched \<Rightarrow> (error + pydict) \<times> 'c sched" where
  "run_component env name s =
     (case map_of (components_inputs s) name of
        None \<Rightarrow> (Inl KeyError, s)
      | Some inputs \<Rightarrow>
          (case invoke env name inputs (comp_state s) of
             (Raised, c') \<Rightarrow> (Inl ComponentRaised, s\<lparr>comp_state := c'\<rparr>)
           | (out, c') \<Rightarrow>
               (let s1 = s\<lparr>comp_state := c',
                          visits := (visits s)(name := visits s name + 1),
                          components_inputs :=
                            AList.update name
                              (reset_variadic (map snd (input_sockets env name)) inputs)
                              (components_inputs s)\<rparr>
                in case out of
                     Returned res \<Rightarrow> (Inr res, s1)
                   | _ \<Rightarrow> (Inl PipelineRuntimeError, s1))))"

section \<open>The progress check shared by both loops\<close>

text \<open>Lines 510--538 of \<^verbatim>\<open>run\<close> and, word for word, lines 261--289 of \<^verbatim>\<open>_run_subgraph\<close>.\<close>

definition progress_check :: "'c env \<Rightarrow> 'c sched \<Rightarrow> 'c flow" where
  "progress_check env s =
     (if run_queue s = [] \<and> waiting_queue s \<noteq> [] then
        (if before_last_waiting_queue s \<noteq> None \<and> last_waiting_queue s \<noteq> None
            \<and> before_last_waiting_queue s = last_waiting_queue s then
           (if is_stuck_in_a_loop env (waiting_queue s) then
              LoopBreak (s\<lparr>warnings := warnings s + 1\<rparr>)
            else
              (let name = find_next_runnable_lazy_variadic_or_default_component env
                            (waiting_queue s);
                   st = add_missing_input_defaults env name (components_inputs s);
                   (rq, wq) = enqueue_component env name (run_queue s) (waiting_queue s)
               in LoopContinue (s\<lparr>components_inputs := st, run_queue := rq,
                                   waiting_queue := wq, drains := drains s + 1\<rparr>)))
         else
           (let s1 = s\<lparr>before_last_waiting_queue := last_waiting_queue s,
                       last_waiting_queue := Some (set (waiting_queue s)),
                       drains := drains s + 1\<rparr>;
                name = find_next_runnable_component env (components_inputs s1)
                         (waiting_queue s1);
                st = add_missing_input_defaults env name (components_inputs s1);
                (rq, wq) = enqueue_component env name (run_queue s1) (waiting_queue s1)
            in FallThrough (s1\<lparr>components_inputs := st, run_queue := rq,
                                waiting_queue := wq\<rparr>)))
      else FallThrough s)"

text \<open>The part of both bodies after the consumed inputs were deleted: dequeue the
  component from the waiting queue, dequeue the components that will receive no input,
  distribute the output to the given receivers.  Returns what distribution left of the
  result.\<close>

definition propagate ::
  "'c env \<Rightarrow> name \<Rightarrow> (name \<times> sock \<times> sock) list \<Rightarrow> pydict \<Rightarrow> 'c sched \<Rightarrow> pydict \<times> 'c sched" where
  "propagate env name receivers res s =
     (let wq1 = dequeue_waiting_component env name (waiting_queue s);
          (rq2, wq2) = foldl (\<lambda>(rq, wq) p. dequeue_component env p rq wq) (run_queue s, wq1)
                         (find_components_that_will_receive_no_input env name res
                            (components_inputs s));
          (res', st', rq3, wq3) = distribute_output env receivers res (components_inputs s) rq2 wq2
      in (res', s\<lparr>components_inputs := st', run_queue := rq3, waiting_queue := wq3\<rparr>))"

section \<open>\<^verbatim>\<open>AsyncPipeline._run_subgraph\<close>: the cycle sub-scheduler\<close>

text \<open>\<^verbatim>\<open>cycle.index(component_name)\<close>: the first position, \<^verbatim>\<open>ValueError\<close> when absent.\<close>

fun index_of :: "'a list \<Rightarrow> 'a \<Rightarrow> nat option" where
  "index_of [] y = None"
| "index_of (x # xs) y =
     (if x = y then Some 0 else (case index_of xs y of None \<Rightarrow> None | Some i \<Rightarrow> Some (Suc i)))"

text \<open>Lines 175--177: the run queue is the slice \<^verbatim>\<open>cycle[start_index:]\<close>.\<close>

definition initial_run_queue :: "name list \<Rightarrow> name \<Rightarrow> error + name list" where
  "initial_run_queue cycle component_name =
     (case index_of cycle component_name of
        None \<Rightarrow> Inl ValueError
      | Some start_index \<Rightarrow> Inr (drop start_index cycle))"


text \<open>Lines 209--219: over the keys of the inputs as they are after the run; the socket
  must be declared (\<^verbatim>\<open>_sockets_dict[socket_name]\<close>).\<close>

fun delete_cycle_inputs ::
  "(sock \<times> input_socket) list \<Rightarrow> name list \<Rightarrow> sock list \<Rightarrow> pydict \<Rightarrow> error + pydict" where
  "delete_cycle_inputs sockets_dict cycle [] inputs = Inr inputs"
| "delete_cycle_inputs sockets_dict cycle (socket_name # rest) inputs =
     (case map_of sockets_dict socket_name of
        None \<Rightarrow> Inl KeyError
      | Some socket \<Rightarrow>
          if senders socket = [] then delete_cycle_inputs sockets_dict cycle rest inputs
          else if (\<forall>sender \<in> set (senders socket). sender \<in> set cycle)
          then delete_cycle_inputs sockets_dict cycle rest (AList.delete socket_name inputs)
          else delete_cycle_inputs sockets_dict cycle rest inputs)"

text \<open>Lines 226--233: does some output socket of the result have a receiver in the cycle?
  The search stops at the first one found.\<close>

fun final_output_reached :: "(sock \<times> name list) list \<Rightarrow> name list \<Rightarrow> sock list \<Rightarrow> error + bool" where
  "final_output_reached out_sockets cycle [] = Inr False"
| "final_output_reached out_sockets cycle (output_socket # rest) =
     (case map_of out_sockets output_socket of
        None \<Rightarrow> Inl KeyError
      | Some receivers \<Rightarrow>
          if (\<exists>receiver \<in> set receivers. receiver \<in> set cycle) then Inr True
          else final_output_reached out_sockets cycle rest)"

text \<open>Lines 200--223: the visit check, the invocation, the yield, the deletion of the
  consumed inputs, the reset of the witnesses.\<close>

definition sub_run_and_consume ::
  "'c env \<Rightarrow> name list \<Rightarrow> name \<Rightarrow> 'c sched \<Rightarrow> (error + pydict) \<times> 'c sched" where
  "sub_run_and_consume env cycle name s =
     (if int (visits s name) > max_runs_per_component env then (Inl PipelineMaxComponentRuns, s)
      else
        (case run_component env name s of
           (Inl e, s1) \<Rightarrow> (Inl e, s1)
         | (Inr res, s1) \<Rightarrow>
             (let s2 = s1\<lparr>yielded := yielded s1 @ [[(name, res)]]\<rparr>
              in case map_of (components_inputs s2) name of
                   None \<Rightarrow> (Inl KeyError, s2)
                 | Some inputs \<Rightarrow>
                     (case delete_cycle_inputs (input_sockets env name) cycle
                             (map fst inputs) inputs of
                        Inl e \<Rightarrow> (Inl e, s2)
                      | Inr inputs' \<Rightarrow>
                          (Inr res,
                           s2\<lparr>components_inputs :=
                                 AList.update name inputs' (components_inputs s2),
                               before_last_waiting_queue := None,
                               last_waiting_queue := None,
                               drains := 0\<rparr>)))))"

text \<open>Lines 191--259, one pass through the body before the progress check.\<close>

definition sub_body :: "'c env \<Rightarrow> name list \<Rightarrow> 'c sched \<Rightarrow> 'c flow" where
  "sub_body env cycle s =
     (case run_queue s of
        [] \<Rightarrow> Raise IndexError s
      | name # rest \<Rightarrow>
          (let s0 = s\<lparr>run_queue := rest\<rparr> in
           if is_lazy_variadic env name \<and> \<not> (\<forall>n \<in> set rest. is_lazy_variadic env n) then
             LoopContinue
               (s0\<lparr>waiting_queue := enqueue_waiting_component env name (waiting_queue s0)\<rparr>)
           else if component_has_enough_inputs_to_run env name (components_inputs s0) then
             (case sub_run_and_consume env cycle name s0 of
                (Inl e, s1) \<Rightarrow> Raise e s1
              | (Inr res, s1) \<Rightarrow>
                  (case final_output_reached (output_receivers env name) cycle (map fst res) of
                     Inl e \<Rightarrow> Raise e s1
                   | Inr reached \<Rightarrow>
                       (let s2 = (if \<not> reached then s1\<lparr>cycle_received_inputs := True\<rparr> else s1);
                            receivers = filter (\<lambda>item. fst item \<in> set cycle)
                                          (find_receivers_from env name);
                            (res', s3) = propagate env name receivers res s2
                        in FallThrough
                             (if res' \<noteq> [] then
                                s3\<lparr>subgraph_outputs :=
                                      AList.update name res' (subgraph_outputs s3)\<rparr>
                              else s3))))
           else
             FallThrough
               (s0\<lparr>waiting_queue := enqueue_waiting_component env name (waiting_queue s0)\<rparr>)))"

definition sub_step :: "'c env \<Rightarrow> name list \<Rightarrow> 'c sched \<Rightarrow> 'c flow" where
  "sub_step env cycle s =
     (case sub_body env cycle s of
        FallThrough s1 \<Rightarrow> progress_check env s1
      | other \<Rightarrow> other)"

text \<open>The loop \<^verbatim>\<open>while not cycle_received_inputs\<close>, with fuel: \<open>None\<close> is a loop still
  running when the fuel is used up.\<close>

fun sub_loop :: "'c env \<Rightarrow> name list \<Rightarrow> nat \<Rightarrow> 'c sched \<Rightarrow> 'c result option" where
  "sub_loop env cycle 0 s = None"
| "sub_loop env cycle (Suc fuel) s =
     (if cycle_received_inputs s then Some (Completed s)
      else
        (case sub_step env cycle s of
           Raise e s' \<Rightarrow> Some (Failed e s')
         | LoopBreak s' \<Rightarrow> Some (Stuck s')
         | LoopContinue s' \<Rightarrow> sub_loop env cycle fuel s'
         | FallThrough s' \<Rightarrow> sub_loop env cycle fuel s'))"

text \<open>The frame of \<^verbatim>\<open>_run_subgraph\<close> entered from the caller's frame: fresh queues,
  witnesses and outputs (lines 171--187).\<close>

definition run_subgraph :: "'c env \<Rightarrow> nat \<Rightarrow> name list \<Rightarrow> name \<Rightarrow> 'c sched \<Rightarrow> 'c result option" where
  "run_subgraph env fuel cycle component_name s =
     (case initial_run_queue cycle component_name of
        Inl e \<Rightarrow> Some (Failed e s)
      | Inr rq \<Rightarrow>
          sub_loop env cycle fuel
            (s\<lparr>run_queue := rq, waiting_queue := [],
               before_last_waiting_queue := None, last_waiting_queue := None, drains := 0,
               subgraph_outputs := [], cycle_received_inputs := False\<rparr>))"

section \<open>\<^verbatim>\<open>AsyncPipeline.run\<close>: the main loop\<close>

text \<open>Lines 483--488: every consumed socket with a sender is deleted.\<close>

fun delete_consumed_inputs ::
  "(sock \<times> input_socket) list \<Rightarrow> sock list \<Rightarrow> pydict \<Rightarrow> error + pydict" where
  "delete_consumed_inputs sockets_dict [] inputs = Inr inputs"
| "delete_consumed_inputs sockets_dict (socket_name # rest) inputs =
     (case map_of sockets_dict socket_name of
        None \<Rightarrow> Inl KeyError
      | Some socket \<Rightarrow>
          if senders socket \<noteq> []
          then delete_consumed_inputs sockets_dict rest (AList.delete socket_name inputs)
          else delete_consumed_inputs sockets_dict rest inputs)"

text \<open>Lines 475--493: the visit check, the invocation, the yield, the deletion of the
  consumed inputs, the reset of the witnesses.\<close>

definition run_and_consume :: "'c env \<Rightarrow> name \<Rightarrow> 'c sched \<Rightarrow> (error + pydict) \<times> 'c sched" where
  "run_and_consume env name s =
     (if int (visits s name) > max_runs_per_component env then (Inl PipelineMaxComponentRuns, s)
      else
        (case run_component env name s of
           (Inl e, s1) \<Rightarrow> (Inl e, s1)
         | (Inr res, s1) \<Rightarrow>
             (let s2 = s1\<lparr>yielded := yielded s1 @ [[(name, res)]]\<rparr>
              in case map_of (components_inputs s2) name of
                   None \<Rightarrow> (Inl KeyError, s2)
                 | Some inputs \<Rightarrow>
                     (case delete_consumed_inputs (input_sockets env name)
                             (map fst inputs) inputs of
                        Inl e \<Rightarrow> (Inl e, s2)
                      | Inr inputs' \<Rightarrow>
                          (Inr res,
                           s2\<lparr>components_inputs :=
                                 AList.update name inputs' (components_inputs s2),
                               before_last_waiting_queue := None,
                               last_waiting_queue := None,
                               drains := 0\<rparr>)))))"

text \<open>Lines 461--472: the residual outputs of a finished cycle are distributed, producer
  by producer, and what is left of each is recorded in \<^verbatim>\<open>final_outputs\<close>.\<close>

fun distribute_subgraph_output :: "'c env \<Rightarrow> outputs \<Rightarrow> 'c sched \<Rightarrow> 'c sched" where
  "distribute_subgraph_output env [] s = s"
| "distribute_subgraph_output env ((component_name, component_output) # rest) s =
     (let (out', st', rq', wq') =
            distribute_output env (find_receivers_from env component_name) component_output
              (components_inputs s) (run_queue s) (waiting_queue s);
          s1 = s\<lparr>components_inputs := st', run_queue := rq', waiting_queue := wq'\<rparr>
      in distribute_subgraph_output env rest
           (if out' \<noteq> [] then
              s1\<lparr>final_outputs := AList.update component_name out' (final_outputs s1)\<rparr>
            else s1))"

text \<open>Lines 436--472: a ready component that is part of a cycle runs the first of its
  cycles in the sub-scheduler.  The sub-scheduler works on the shared store, visit
  counters and stream; the queues, witnesses and \<^verbatim>\<open>final_outputs\<close> of \<^verbatim>\<open>run\<close> are its own.\<close>

definition cycle_dispatch :: "'c env \<Rightarrow> nat \<Rightarrow> name list \<Rightarrow> name \<Rightarrow> 'c sched \<Rightarrow> 'c flow option" where
  "cycle_dispatch env fuel cycle name s =
     (case run_subgraph env fuel cycle name s of
        None \<Rightarrow> None
      | Some (Failed e s') \<Rightarrow>
          Some (Raise e (s'\<lparr>run_queue := run_queue s, waiting_queue := waiting_queue s,
                            before_last_waiting_queue := before_last_waiting_queue s,
                            last_waiting_queue := last_waiting_queue s, drains := drains s,
                            subgraph_outputs := subgraph_outputs s,
                            cycle_received_inputs := cycle_received_inputs s\<rparr>))
      | Some r \<Rightarrow>
          (let s' = (case r of Stuck x \<Rightarrow> x | Completed x \<Rightarrow> x | Failed e x \<Rightarrow> x);
               m = s'\<lparr>run_queue := [], waiting_queue := waiting_queue s,
                       before_last_waiting_queue := None, last_waiting_queue := None,
                       drains := 0,
                       subgraph_outputs := subgraph_outputs s,
                       cycle_received_inputs := cycle_received_inputs s\<rparr>
           in Some (FallThrough (distribute_subgraph_output env (subgraph_outputs s') m))))"

text \<open>Lines 429--508, one pass through the body before the progress check.\<close>

definition main_body :: "'c env \<Rightarrow> nat \<Rightarrow> 'c sched \<Rightarrow> 'c flow option" where
  "main_body env fuel s =
     (case run_queue s of
        [] \<Rightarrow> Some (Raise IndexError s)
      | name # rest \<Rightarrow>
          (let s0 = s\<lparr>run_queue := rest\<rparr> in
           if is_lazy_variadic env name \<and> \<not> (\<forall>n \<in> set rest. is_lazy_variadic env n) then
             Some (LoopContinue
               (s0\<lparr>waiting_queue := enqueue_waiting_component env name (waiting_queue s0)\<rparr>))
           else if component_has_enough_inputs_to_run env name (components_inputs s0)
                   \<and> components_in_cycles env name \<noteq> [] then
             cycle_dispatch env fuel (hd (components_in_cycles env name)) name s0
           else if component_has_enough_inputs_to_run env name (components_inputs s0) then
             (case run_and_consume env name s0 of
                (Inl e, s1) \<Rightarrow> Some (Raise e s1)
              | (Inr res, s1) \<Rightarrow>
                  (let (res', s2) = propagate env name (find_receivers_from env name) res s1
                   in Some (FallThrough
                        (if res' \<noteq> [] then
                           s2\<lparr>final_outputs := AList.update name res' (final_outputs s2)\<rparr>
                         else s2))))
           else
             Some (FallThrough
               (s0\<lparr>waiting_queue := enqueue_waiting_component env name (waiting_queue s0)\<rparr>))))"

definition main_step :: "'c env \<Rightarrow> nat \<Rightarrow> 'c sched \<Rightarrow> 'c flow option" where
  "main_step env fuel s =
     (case main_body env fuel s of
        Some (FallThrough s1) \<Rightarrow> Some (progress_check env s1)
      | other \<Rightarrow> other)"

text \<open>The loop \<^verbatim>\<open>while len(run_queue) > 0\<close>, with fuel.\<close>

fun main_loop :: "'c env \<Rightarrow> nat \<Rightarrow> 'c sched \<Rightarrow> 'c result option" where
  "main_loop env 0 s = None"
| "main_loop env (Suc fuel) s =
     (if run_queue s = [] then Some (Completed s)
      else
        (case main_step env fuel s of
           None \<Rightarrow> None
         | Some (Raise e s') \<Rightarrow> Some (Failed e s')
         | Some (LoopBreak s') \<Rightarrow> Some (Stuck s')
         | Some (LoopContinue s') \<Rightarrow> main_loop env fuel s'
         | Some (FallThrough s') \<Rightarrow> main_loop env fuel s'))"

text \<open>Lines 407--417: every node gets an entry in the store; a socket without senders
  that the user did not provide gets its default value, wrapped in a list when variadic.\<close>

fun fill_defaults :: "(sock \<times> input_socket) list \<Rightarrow> pydict \<Rightarrow> pydict" where
  "fill_defaults [] inputs = inputs"
| "fill_defaults ((socket_name, socket) # rest) inputs =
     (if socket_name \<in> set (map fst inputs) then fill_defaults rest inputs
      else if senders socket = [] then
        fill_defaults rest
          (AList.update socket_name
             (if is_variadic socket then VList [default_value socket] else default_value socket)
             inputs)
      else fill_defaults rest inputs)"

fun set_default_inputs :: "'c env \<Rightarrow> name list \<Rightarrow> store \<Rightarrow> store" where
  "set_default_inputs env [] st = st"
| "set_default_inputs env (name # rest) st =
     (let st1 = (if name \<notin> set (map fst st) then AList.update name [] st else st);
          inputs = (case map_of st1 name of None \<Rightarrow> [] | Some i \<Rightarrow> i)
      in set_default_inputs env rest
           (AList.update name (fill_defaults (input_sockets env name) inputs) st1))"

text \<open>The frame at the entry of the main loop; \<open>data\<close> is the input after
  \<^verbatim>\<open>_prepare_component_input_data\<close>, \<^verbatim>\<open>_validate_input\<close> and \<^verbatim>\<open>_normalize_varidiac_input_data\<close>.\<close>

definition initial_frame :: "'c env \<Rightarrow> store \<Rightarrow> 'c \<Rightarrow> 'c sched" where
  "initial_frame env data c0 =
     \<lparr>visits = (\<lambda>_. 0),
      components_inputs = set_default_inputs env (node_names env) data,
      comp_state = c0,
      yielded = [],
      warnings = 0,
      run_queue = topological_order env,
      waiting_queue = [],
      before_last_waiting_queue = None,
      last_waiting_queue = None,
      drains = 0,
      final_outputs = [],
      subgraph_outputs = [],
      cycle_received_inputs = False\<rparr>"

text \<open>\<^verbatim>\<open>run\<close>: the loop, then \<^verbatim>\<open>yield final_outputs\<close> (line 540), which is reached when the
  loop condition fails and when the loop is left by \<^verbatim>\<open>break\<close>.\<close>

definition run :: "'c env \<Rightarrow> nat \<Rightarrow> store \<Rightarrow> 'c \<Rightarrow> 'c result option" where
  "run env fuel data c0 =
     (case main_loop env fuel (initial_frame env data c0) of
        None \<Rightarrow> None
      | Some (Failed e s) \<Rightarrow> Some (Failed e s)
      | Some (Stuck s) \<Rightarrow> Some (Stuck (s\<lparr>yielded := yielded s @ [final_outputs s]\<rparr>))
      | Some (Completed s) \<Rightarrow> Some (Completed (s\<lparr>yielded := yielded s @ [final_outputs s]\<rparr>)))"

section \<open>\<^verbatim>\<open>run_async_pipeline\<close>: the convenience driver\<close>

text \<open>Lines 571--573: the dictionary comprehension over all but the last item; a later
  item with the same name replaces the value.\<close>

definition intermediate_outputs :: "outputs list \<Rightarrow> name set option \<Rightarrow> outputs" where
  "intermediate_outputs ds include_outputs_from =
     foldl (\<lambda>acc (k, v).
              if (case include_outputs_from of None \<Rightarrow> True | Some names \<Rightarrow> k \<in> names)
              then AList.update k v acc else acc)
       [] (concat ds)"

text \<open>Lines 582--584.\<close>

fun merge_missing :: "pydict \<Rightarrow> pydict \<Rightarrow> pydict" where
  "merge_missing [] inner = inner"
| "merge_missing ((k, v) # rest) inner =
     merge_missing rest (if k \<notin> set (map fst inner) then AList.update k v inner else inner)"

text \<open>Lines 577--584.\<close>

fun accumulate_outputs :: "outputs \<Rightarrow> outputs \<Rightarrow> outputs" where
  "accumulate_outputs [] final_output = final_output"
| "accumulate_outputs ((name, output) # rest) final_output =
     (case map_of final_output name of
        None \<Rightarrow> accumulate_outputs rest (AList.update name output final_output)
      | Some inner \<Rightarrow>
          accumulate_outputs rest (AList.update name (merge_missing output inner) final_output))"

text \<open>Lines 569--586 on the consumed stream; \<^verbatim>\<open>outputs[-1]\<close> of an empty list is an
  \<^verbatim>\<open>IndexError\<close>.\<close>

definition collect_outputs :: "outputs list \<Rightarrow> name set option \<Rightarrow> error + outputs" where
  "collect_outputs outs include_outputs_from =
     (if outs = [] then Inl IndexError
      else Inr (accumulate_outputs (intermediate_outputs (butlast outs) include_outputs_from)
                  (last outs)))"

definition run_async_pipeline ::
  "'c env \<Rightarrow> nat \<Rightarrow> store \<Rightarrow> 'c \<Rightarrow> name set option \<Rightarrow> (error + outputs) option" where
  "run_async_pipeline env fuel data c0 include_outputs_from =
     (case run env fuel data c0 of
        None \<Rightarrow> None
      | Some (Failed e s) \<Rightarrow> Some (Inl e)
      | Some (Stuck s) \<Rightarrow> Some (collect_outputs (yielded s) include_outputs_from)
      | Some (Completed s) \<Rightarrow> Some (collect_outputs (yielded s) include_outputs_from))"

section \<open>Example collaborators and pipelines\<close>

text \<open>
  Modelled from the spec: the queue helpers, the readiness oracle and the distributor of
  the base pipeline, which are not part of this source file.  They follow sections 3, 4.3,
  4.4 and 4.5.2 of the specification in their simplest form and are used only to run the
  scheduler on concrete pipelines; no general theorem depends on them.
\<close>

definition ex_enqueue_waiting :: "name \<Rightarrow> name list \<Rightarrow> name list" where
  "ex_enqueue_waiting n wq = (if n \<in> set wq then wq else wq @ [n])"

definition ex_dequeue_waiting :: "name \<Rightarrow> name list \<Rightarrow> name list" where
  "ex_dequeue_waiting n wq = remove1 n wq"

definition ex_enqueue :: "name \<Rightarrow> name list \<Rightarrow> name list \<Rightarrow> name list \<times> name list" where
  "ex_enqueue n rq wq = (if n \<in> set rq then rq else rq @ [n], remove1 n wq)"

definition ex_dequeue :: "name \<Rightarrow> name list \<Rightarrow> name list \<Rightarrow> name list \<times> name list" where
  "ex_dequeue n rq wq = (remove1 n rq, remove1 n wq)"

text \<open>Modelled from the spec: ready when every declared input socket is present in the
  store (section 4.3, first alternative).\<close>

definition ex_ready :: "(name \<Rightarrow> (sock \<times> input_socket) list) \<Rightarrow> name \<Rightarrow> store \<Rightarrow> bool" where
  "ex_ready socks n st =
     (case map_of st n of
        None \<Rightarrow> False
      | Some ins \<Rightarrow> list_all (\<lambda>k. k \<in> set (map fst ins)) (map fst (socks n)))"

text \<open>Modelled from the spec: the distributor of section 4.4.  A receiver is a triple of
  the receiving component, the sender's output socket and the receiver's input socket.\<close>

fun ex_deliver ::
  "(name \<Rightarrow> (sock \<times> input_socket) list) \<Rightarrow> (name \<times> sock \<times> sock) list \<Rightarrow> pydict \<Rightarrow> store
     \<Rightarrow> name list \<Rightarrow> name list \<Rightarrow> store \<times> name list \<times> name list" where
  "ex_deliver socks [] res st rq wq = (st, rq, wq)"
| "ex_deliver socks ((d, so, t) # rest) res st rq wq =
     (case map_of res so of
        None \<Rightarrow> ex_deliver socks rest res st rq wq
      | Some v \<Rightarrow>
          (let ins = (case map_of st d of None \<Rightarrow> [] | Some i \<Rightarrow> i);
               variadic = (case map_of (socks d) t of None \<Rightarrow> False | Some sk \<Rightarrow> is_variadic sk);
               old = (case map_of ins t of Some (VList vs) \<Rightarrow> vs | _ \<Rightarrow> []);
               st' = AList.update d
                       (AList.update t (if variadic then VList (old @ [v]) else v) ins) st
           in if ex_ready socks d st'
              then ex_deliver socks rest res st' (fst (ex_enqueue d rq wq)) (snd (ex_enqueue d rq wq))
              else ex_deliver socks rest res st' rq (ex_enqueue_waiting d wq)))"

definition ex_distribute ::
  "(name \<Rightarrow> (sock \<times> input_socket) list) \<Rightarrow> (name \<times> sock \<times> sock) list \<Rightarrow> pydict \<Rightarrow> store
     \<Rightarrow> name list \<Rightarrow> name list \<Rightarrow> pydict \<times> store \<times> name list \<times> name list" where
  "ex_distribute socks receivers res st rq wq =
     (filter (\<lambda>kv. fst kv \<notin> set (map (\<lambda>r. fst (snd r)) receivers)) res,
      ex_deliver socks receivers res st rq wq)"

text \<open>Modelled from the spec: candidate selection (section 4.5.2): the first waiting
  component that is ready, else the first waiting component.\<close>

definition ex_first :: "name list \<Rightarrow> name" where
  "ex_first wq = (case wq of [] \<Rightarrow> [] | n # _ \<Rightarrow> n)"

definition ex_next_runnable ::
  "(name \<Rightarrow> (sock \<times> input_socket) list) \<Rightarrow> store \<Rightarrow> name list \<Rightarrow> name" where
  "ex_next_runnable socks st wq =
     (case filter (\<lambda>n. ex_ready socks n st) wq of [] \<Rightarrow> ex_first wq | n # _ \<Rightarrow> n)"

text \<open>An environment assembled from a graph description and the behaviour of the
  components; a waiting set that repeats is taken to be stuck.\<close>

definition example_env ::
  "int \<Rightarrow> name list \<Rightarrow> (name \<Rightarrow> name list list) \<Rightarrow> (name \<Rightarrow> (sock \<times> input_socket) list)
     \<Rightarrow> (name \<Rightarrow> (sock \<times> name list) list) \<Rightarrow> (name \<Rightarrow> (name \<times> sock \<times> sock) list)
     \<Rightarrow> (name \<Rightarrow> bool) \<Rightarrow> (name \<Rightarrow> pydict \<Rightarrow> nat \<Rightarrow> outcome \<times> nat) \<Rightarrow> nat env" where
  "example_env max_runs order cycles socks outs recvs lazy behaviour =
     \<lparr>max_runs_per_component = max_runs,
      node_names = order,
      topological_order = order,
      components_in_cycles = cycles,
      input_sockets = socks,
      output_receivers = outs,
      invoke = behaviour,
      is_lazy_variadic = lazy,
      component_has_enough_inputs_to_run = ex_ready socks,
      is_stuck_in_a_loop = (\<lambda>wq. True),
      find_next_runnable_component = ex_next_runnable socks,
      find_next_runnable_lazy_variadic_or_default_component = ex_first,
      add_missing_input_defaults = (\<lambda>n st. st),
      find_components_that_will_receive_no_input = (\<lambda>n res st. []),
      find_receivers_from = recvs,
      distribute_output = ex_distribute socks,
      enqueue_component = ex_enqueue,
      dequeue_component = ex_dequeue,
      enqueue_waiting_component = ex_enqueue_waiting,
      dequeue_waiting_component = ex_dequeue_waiting\<rparr>"

definition plain_socket :: "sock \<Rightarrow> name list \<Rightarrow> input_socket" where
  "plain_socket k snds = \<lparr>sock_name = k, senders = snds, is_variadic = False, default_value = VEmpty\<rparr>"

definition variadic_socket :: "sock \<Rightarrow> name list \<Rightarrow> input_socket" where
  "variadic_socket k snds = \<lparr>sock_name = k, senders = snds, is_variadic = True, default_value = VEmpty\<rparr>"

text \<open>The linear chain of the docstring of \<^verbatim>\<open>run\<close>: \<^verbatim>\<open>hello.output -> hello2.word\<close>; a
  greeting is modelled by a counter that is incremented.\<close>

definition greet :: "name \<Rightarrow> pydict \<Rightarrow> nat \<Rightarrow> outcome \<times> nat" where
  "greet n ins c =
     (case map_of ins ''word'' of
        Some (VInt i) \<Rightarrow> (Returned [(''output'', VInt (i + 1))], Suc c)
      | _ \<Rightarrow> (Raised, c))"

definition chain_env :: "nat env" where
  "chain_env =
     example_env 100 [''hello'', ''hello2''] (\<lambda>n. [])
       (\<lambda>n. if n = ''hello'' then [(''word'', plain_socket ''word'' [])]
             else [(''word'', plain_socket ''word'' [''hello''])])
       (\<lambda>n. if n = ''hello'' then [(''output'', [''hello2''])] else [(''output'', [])])
       (\<lambda>n. if n = ''hello'' then [(''hello2'', ''output'', ''word'')] else [])
       (\<lambda>n. False)
       greet"

definition chain_data :: store where
  "chain_data = [(''hello'', [(''word'', VInt 0)])]"

text \<open>A single component whose \<^verbatim>\<open>run\<close> returns something that is not a mapping; it has
  a variadic and a plain input socket, both provided by the user.\<close>

definition faulty_env :: "nat env" where
  "faulty_env =
     example_env 100 [''j''] (\<lambda>n. [])
       (\<lambda>n. [(''in'', variadic_socket ''in'' []), (''q'', plain_socket ''q'' [])])
       (\<lambda>n. []) (\<lambda>n. []) (\<lambda>n. False)
       (\<lambda>n ins c. (NotMapping, Suc c))"

definition faulty_data :: store where
  "faulty_data = [(''j'', [(''in'', VList [VInt 1]), (''q'', VInt 2)])]"

text \<open>A component \<open>j\<close> with a variadic socket provided by the user and a plain socket fed
  by a component \<open>p\<close>.\<close>

definition mixed_env :: "nat env" where
  "mixed_env =
     example_env 100 [''j''] (\<lambda>n. [])
       (\<lambda>n. [(''in'', variadic_socket ''in'' []), (''q'', plain_socket ''q'' [''p''])])
       (\<lambda>n. [(''output'', [])]) (\<lambda>n. []) (\<lambda>n. False)
       (\<lambda>n ins c. (Returned [(''output'', VInt 1)], Suc c))"

definition mixed_data :: store where
  "mixed_data = [(''j'', [(''in'', VList [VInt 1]), (''q'', VInt 2)])]"


text \<open>Scenario 5 of the specification: \<open>z\<close> waits for an input from \<open>a\<close>, and \<open>a\<close> returns
  an empty mapping.\<close>

definition stuck_env :: "nat env" where
  "stuck_env =
     example_env 100 [''a'', ''z''] (\<lambda>n. [])
       (\<lambda>n. if n = ''a'' then [(''word'', plain_socket ''word'' [])]
             else [(''x'', plain_socket ''x'' [''a''])])
       (\<lambda>n. if n = ''a'' then [(''output'', [''z''])] else [(''output'', [])])
       (\<lambda>n. if n = ''a'' then [(''z'', ''output'', ''x'')] else [])
       (\<lambda>n. False)
       (\<lambda>n ins c. (Returned [], Suc c))"

definition stuck_data :: store where
  "stuck_data = [(''a'', [(''word'', VInt 0)])]"

text \<open>A cycle \<open>a \<rightarrow> b \<rightarrow> a\<close> in which \<open>b\<close> also needs an input \<open>y\<close> from a component \<open>e\<close>
  outside the cycle that never arrives.\<close>

definition cyc_env :: "nat env" where
  "cyc_env =
     example_env 100 [''a'', ''b'']
       (\<lambda>n. if n = ''a'' \<or> n = ''b'' then [[''a'', ''b'']] else [])
       (\<lambda>n. if n = ''a'' then [(''in'', plain_socket ''in'' [''b''])]
             else [(''x'', plain_socket ''x'' [''a'']), (''y'', plain_socket ''y'' [''e''])])
       (\<lambda>n. if n = ''a'' then [(''out'', [''b''])] else [(''out'', [''a''])])
       (\<lambda>n. if n = ''a'' then [(''b'', ''out'', ''x'')] else [(''a'', ''out'', ''in'')])
       (\<lambda>n. False)
       (\<lambda>n ins c. (Returned [(''out'', VInt 1)], Suc c))"

definition cyc_data :: store where
  "cyc_data = [(''a'', [(''in'', VInt 0)])]"

definition cyc_full_data :: store where
  "cyc_full_data = [(''b'', [(''x'', VInt 1), (''y'', VInt 2)])]"

text \<open>Scenario 6 of the specification: a component whose output feeds its own input.\<close>

definition loop_env :: "int \<Rightarrow> nat env" where
  "loop_env max_runs =
     example_env max_runs [''a''] (\<lambda>n. [[''a'']])
       (\<lambda>n. [(''x'', plain_socket ''x'' [''a''])])
       (\<lambda>n. [(''out'', [''a''])])
       (\<lambda>n. [(''a'', ''out'', ''x'')])
       (\<lambda>n. False)
       (\<lambda>n ins c. (Returned [(''out'', VInt (int c))], Suc c))"

definition loop_data :: store where
  "loop_data = [(''a'', [(''x'', VInt 0)])]"

section \<open>Observations used in the statements\<close>

fun state_of :: "'c flow \<Rightarrow> 'c sched" where
  "state_of (Raise e s) = s"
| "state_of (LoopBreak s) = s"
| "state_of (LoopContinue s) = s"
| "state_of (FallThrough s) = s"

datatype exit = OutOfFuel | ByError error | ByBreak | ByCondition

fun exit_of :: "'c result option \<Rightarrow> exit" where
  "exit_of None = OutOfFuel"
| "exit_of (Some (Failed e s)) = ByError e"
| "exit_of (Some (Stuck s)) = ByBreak"
| "exit_of (Some (Completed s)) = ByCondition"

fun state_at_exit :: "'c result option \<Rightarrow> 'c sched option" where
  "state_at_exit None = None"
| "state_at_exit (Some (Failed e s)) = Some s"
| "state_at_exit (Some (Stuck s)) = Some s"
| "state_at_exit (Some (Completed s)) = Some s"

text \<open>The history variable counts at least one drain when the last witness is defined and
  at least two when the one before is.\<close>

definition witness_inv :: "'c sched \<Rightarrow> bool" where
  "witness_inv s \<longleftrightarrow>
     (last_waiting_queue s \<noteq> None \<longrightarrow> 1 \<le> drains s)
   \<and> (before_last_waiting_queue s \<noteq> None \<longrightarrow> 2 \<le> drains s)"

text \<open>What the code does guarantee about the visit counters: one more than the maximum.\<close>

definition visits_bounded :: "'c env \<Rightarrow> 'c sched \<Rightarrow> bool" where
  "visits_bounded env s \<longleftrightarrow>
     (\<forall>n. int (visits s n) \<le> max 0 (max_runs_per_component env + 1))"

section \<open>Dictionary and list helpers\<close>

lemma reset_variadic_keys: "map fst (reset_variadic ss inputs) = map fst inputs"
  by (induction ss arbitrary: inputs) (auto simp: AList.update_keys)

lemma reset_variadic_map_of:
  "map_of (reset_variadic ss inputs) k =
     (if k \<in> set (map fst inputs) \<and> (\<exists>s \<in> set ss. sock_name s = k \<and> is_variadic s)
      then Some (VList []) else map_of inputs k)"
proof (induction ss arbitrary: inputs)
  case Nil
  then show ?case by simp
next
  case (Cons s ss)
  show ?case
  proof (cases "sock_name s \<in> set (map fst inputs) \<and> is_variadic s")
    case True
    then have "reset_variadic (s # ss) inputs
                 = reset_variadic ss (AList.update (sock_name s) (VList []) inputs)"
      by simp
    moreover have "set (map fst (AList.update (sock_name s) (VList []) inputs))
                     = set (map fst inputs)"
      using True by (auto simp: AList.update_keys)
    ultimately show ?thesis
      using True Cons.IH [of "AList.update (sock_name s) (VList []) inputs"]
      by (auto simp: AList.update_conv')
  next
    case False
    then have "reset_variadic (s # ss) inputs = reset_variadic ss inputs"
      by auto
    then show ?thesis
      using False Cons.IH [of inputs] by auto
  qed
qed


lemma index_of_None: "y \<notin> set xs \<Longrightarrow> index_of xs y = None"
  by (induction xs) auto

section \<open>The initial run queue of the cycle sub-scheduler\<close>




section \<open>A component that does not return a mapping\<close>

text \<open>
  Claim C10: when the invoked component returns something that is not a mapping,
  \<^verbatim>\<open>_run_component\<close> raises \<^verbatim>\<open>PipelineRuntimeError\<close> in a state in which the visit counter
  of the component is already incremented and every variadic socket that was present in
  its inputs is already reset to the empty list (the other entries are as they were); both
  loops propagate the error with that state.
\<close>

theorem run_component_not_mapping:
  assumes "map_of (components_inputs s) name = Some inputs"
    and "invoke env name inputs (comp_state s) = (NotMapping, c')"
  shows "\<exists>s' inputs'.
           run_component env name s = (Inl PipelineRuntimeError, s')
         \<and> visits s' name = visits s name + 1
         \<and> map_of (components_inputs s') name = Some inputs'
         \<and> (\<forall>k. map_of inputs' k =
                  (if k \<in> set (map fst inputs)
                      \<and> (\<exists>socket \<in> set (map snd (input_sockets env name)).
                            sock_name socket = k \<and> is_variadic socket)
                   then Some (VList []) else map_of inputs k))
         \<and> (\<not> int (visits s name) > max_runs_per_component env \<longrightarrow>
              run_and_consume env name s = (Inl PipelineRuntimeError, s')
              \<and> sub_run_and_consume env cycle name s = (Inl PipelineRuntimeError, s'))"
  using assms
  by (simp add: run_component_def run_and_consume_def sub_run_and_consume_def
        AList.update_conv' reset_variadic_map_of)

theorem run_component_not_mapping_witness:
  "map_of (components_inputs (initial_frame faulty_env faulty_data 0)) ''j''
     = Some [(''in'', VList [VInt 1]), (''q'', VInt 2)]
   \<and> invoke faulty_env ''j'' [(''in'', VList [VInt 1]), (''q'', VInt 2)]
       (comp_state (initial_frame faulty_env faulty_data 0)) = (NotMapping, 1)
   \<and> fst (run_component faulty_env ''j'' (initial_frame faulty_env faulty_data 0))
       = Inl PipelineRuntimeError
   \<and> visits (snd (run_component faulty_env ''j'' (initial_frame faulty_env faulty_data 0))) ''j''
       = 1
   \<and> map_of (components_inputs
               (snd (run_component faulty_env ''j'' (initial_frame faulty_env faulty_data 0))))
        ''j'' = Some [(''in'', VList []), (''q'', VInt 2)]"
proof -
  let ?s = "initial_frame faulty_env faulty_data 0"
  have h1: "map_of (components_inputs ?s) ''j'' = Some [(''in'', VList [VInt 1]), (''q'', VInt 2)]"
    by code_simp
  have h2: "invoke faulty_env ''j'' [(''in'', VList [VInt 1]), (''q'', VInt 2)] (comp_state ?s)
              = (NotMapping, 1)"
    by code_simp
  have v: "visits ?s ''j'' = 0"
    by (simp add: initial_frame_def)
  have r: "map_of (components_inputs (snd (run_component faulty_env ''j'' ?s))) ''j''
             = Some [(''in'', VList []), (''q'', VInt 2)]"
    by code_simp
  from run_component_not_mapping [OF h1 h2] obtain s' where
    "run_component faulty_env ''j'' ?s = (Inl PipelineRuntimeError, s')"
    "visits s' ''j'' = visits ?s ''j'' + 1"
    by blast
  with h1 h2 v r show ?thesis by simp
qed


section \<open>Consumed inputs\<close>

lemma delete_consumed_inputs_map_of:
  "delete_consumed_inputs sd ks inputs = Inr inputs' \<Longrightarrow>
     map_of inputs' k =
       (if k \<in> set ks \<and> (\<exists>socket. map_of sd k = Some socket \<and> senders socket \<noteq> [])
        then None else map_of inputs k)"
  by (induction ks arbitrary: inputs)
     (auto simp: AList.delete_conv' split: option.splits if_splits)

lemma delete_consumed_inputs_declared:
  "delete_consumed_inputs sd ks inputs = Inr inputs' \<Longrightarrow> k \<in> set ks \<Longrightarrow>
     \<exists>socket. map_of sd k = Some socket"
  by (induction ks arbitrary: inputs) (auto split: option.splits if_splits)

lemma delete_cycle_inputs_map_of:
  "delete_cycle_inputs sd cycle ks inputs = Inr inputs' \<Longrightarrow>
     map_of inputs' k =
       (if k \<in> set ks \<and> (\<exists>socket. map_of sd k = Some socket \<and> senders socket \<noteq> []
                              \<and> (\<forall>sender \<in> set (senders socket). sender \<in> set cycle))
        then None else map_of inputs k)"
  by (induction ks arbitrary: inputs)
     (auto simp: AList.delete_conv' split: option.splits if_splits)

lemma delete_cycle_inputs_declared:
  "delete_cycle_inputs sd cycle ks inputs = Inr inputs' \<Longrightarrow> k \<in> set ks \<Longrightarrow>
     \<exists>socket. map_of sd k = Some socket"
  by (induction ks arbitrary: inputs) (auto split: option.splits if_splits)

lemma run_component_Inr:
  assumes "run_component env name s = (Inr res, s1)"
  shows "\<exists>inputs c'. map_of (components_inputs s) name = Some inputs
           \<and> invoke env name inputs (comp_state s) = (Returned res, c')
           \<and> s1 = s\<lparr>comp_state := c',
                     visits := (visits s)(name := visits s name + 1),
                     components_inputs :=
                       AList.update name
                         (reset_variadic (map snd (input_sockets env name)) inputs)
                         (components_inputs s)\<rparr>"
  using assms
  by (auto simp: run_component_def Let_def split: option.splits prod.splits outcome.splits)

lemma run_and_consume_Inr:
  assumes "run_and_consume env name s = (Inr res, s')"
  shows "\<exists>s1 consumed inputs'.
           \<not> int (visits s name) > max_runs_per_component env
         \<and> run_component env name s = (Inr res, s1)
         \<and> map_of (components_inputs s1) name = Some consumed
         \<and> delete_consumed_inputs (input_sockets env name) (map fst consumed) consumed
             = Inr inputs'
         \<and> s' = s1\<lparr>yielded := yielded s1 @ [[(name, res)]],
                     components_inputs := AList.update name inputs' (components_inputs s1),
                     before_last_waiting_queue := None,
                     last_waiting_queue := None,
                     drains := 0\<rparr>"
  using assms
  by (auto simp: run_and_consume_def Let_def
           split: if_splits prod.splits sum.splits option.splits)

lemma sub_run_and_consume_Inr:
  assumes "sub_run_and_consume env cycle name s = (Inr res, s')"
  shows "\<exists>s1 consumed inputs'.
           \<not> int (visits s name) > max_runs_per_component env
         \<and> run_component env name s = (Inr res, s1)
         \<and> map_of (components_inputs s1) name = Some consumed
         \<and> delete_cycle_inputs (input_sockets env name) cycle (map fst consumed) consumed
             = Inr inputs'
         \<and> s' = s1\<lparr>yielded := yielded s1 @ [[(name, res)]],
                     components_inputs := AList.update name inputs' (components_inputs s1),
                     before_last_waiting_queue := None,
                     last_waiting_queue := None,
                     drains := 0\<rparr>"
  using assms
  by (auto simp: sub_run_and_consume_def Let_def
           split: if_splits prod.splits sum.splits option.splits)


section \<open>Witnesses of the progress check\<close>

lemma propagate_fields:
  assumes "propagate env name receivers res s = (res', t)"
  shows "cycle_received_inputs t = cycle_received_inputs s"
    and "before_last_waiting_queue t = before_last_waiting_queue s"
    and "last_waiting_queue t = last_waiting_queue s"
    and "drains t = drains s"
    and "visits t = visits s"
    and "yielded t = yielded s"
    and "warnings t = warnings s"
  using assms by (auto simp: propagate_def Let_def split: prod.splits)

lemma progress_check_break:
  assumes "progress_check env s = LoopBreak s'"
  shows "run_queue s = [] \<and> waiting_queue s \<noteq> []
       \<and> (\<exists>W. before_last_waiting_queue s = Some W \<and> last_waiting_queue s = Some W)
       \<and> is_stuck_in_a_loop env (waiting_queue s)
       \<and> s' = s\<lparr>warnings := warnings s + 1\<rparr>"
  using assms
  by (auto simp: progress_check_def Let_def split: if_splits prod.splits)

lemma progress_check_cri:
  "cycle_received_inputs (state_of (progress_check env s)) = cycle_received_inputs s"
  by (auto simp: progress_check_def Let_def split: if_splits prod.splits)

lemma progress_check_no_raise: "progress_check env s \<noteq> Raise e t"
  by (auto simp: progress_check_def Let_def split: if_splits prod.splits)

lemma progress_check_inv:
  assumes "witness_inv s"
    and "progress_check env s = LoopContinue s' \<or> progress_check env s = FallThrough s'"
  shows "witness_inv s'"
  using assms
  by (auto simp: progress_check_def witness_inv_def Let_def split: if_splits prod.splits)

lemma distribute_subgraph_output_fields:
  "before_last_waiting_queue (distribute_subgraph_output env outs s) = before_last_waiting_queue s
   \<and> last_waiting_queue (distribute_subgraph_output env outs s) = last_waiting_queue s
   \<and> drains (distribute_subgraph_output env outs s) = drains s"
  by (induction env outs s rule: distribute_subgraph_output.induct)
     (auto simp: Let_def split: prod.splits)

lemma cycle_dispatch_resets:
  assumes "cycle_dispatch env fuel cycle name s = Some fl"
  shows "(\<exists>e t. fl = Raise e t)
       \<or> (\<exists>t. fl = FallThrough t \<and> before_last_waiting_queue t = None
              \<and> last_waiting_queue t = None \<and> drains t = 0)"
  using assms
  by (auto simp: cycle_dispatch_def Let_def distribute_subgraph_output_fields
           split: option.splits result.splits)

lemma run_and_consume_resets:
  assumes "run_and_consume env name s = (Inr res, t)"
  shows "before_last_waiting_queue t = None \<and> last_waiting_queue t = None \<and> drains t = 0"
  using assms
  by (auto simp: run_and_consume_def Let_def
           split: if_splits prod.splits sum.splits option.splits)

lemma sub_run_and_consume_resets:
  assumes "sub_run_and_consume env cycle name s = (Inr res, t)"
  shows "before_last_waiting_queue t = None \<and> last_waiting_queue t = None \<and> drains t = 0"
  using assms
  by (auto simp: sub_run_and_consume_def Let_def
           split: if_splits prod.splits sum.splits option.splits)

lemma main_body_inv:
  assumes "witness_inv s"
    and "main_body env fuel s = Some (LoopContinue t) \<or> main_body env fuel s = Some (FallThrough t)"
  shows "witness_inv t"
proof (cases "run_queue s")
  case Nil
  with assms show ?thesis by (simp add: main_body_def)
next
  case (Cons name rest)
  let ?s0 = "s\<lparr>run_queue := rest\<rparr>"
  consider (deferred) "is_lazy_variadic env name \<and> \<not> (\<forall>n \<in> set rest. is_lazy_variadic env n)"
    | (cyc) "\<not> (is_lazy_variadic env name \<and> \<not> (\<forall>n \<in> set rest. is_lazy_variadic env n))"
        "component_has_enough_inputs_to_run env name (components_inputs ?s0)"
        "components_in_cycles env name \<noteq> []"
    | (plain) "\<not> (is_lazy_variadic env name \<and> \<not> (\<forall>n \<in> set rest. is_lazy_variadic env n))"
        "component_has_enough_inputs_to_run env name (components_inputs ?s0)"
        "components_in_cycles env name = []"
    | (waits) "\<not> (is_lazy_variadic env name \<and> \<not> (\<forall>n \<in> set rest. is_lazy_variadic env n))"
        "\<not> component_has_enough_inputs_to_run env name (components_inputs ?s0)"
    by blast
  then show ?thesis
  proof cases
    case deferred
    with assms Cons show ?thesis
      by (auto simp: main_body_def Let_def witness_inv_def)
  next
    case cyc
    with assms(2) Cons have
      "cycle_dispatch env fuel (hd (components_in_cycles env name)) name ?s0 = Some (LoopContinue t)
       \<or> cycle_dispatch env fuel (hd (components_in_cycles env name)) name ?s0 = Some (FallThrough t)"
      by (auto simp: main_body_def Let_def split: if_splits)
    then show ?thesis
      using cycle_dispatch_resets [of env fuel "hd (components_in_cycles env name)" name ?s0]
      by (auto simp: witness_inv_def)
  next
    case plain
    with assms(2) Cons obtain res t1 res' t2 where
      rc: "run_and_consume env name ?s0 = (Inr res, t1)"
      and pr: "propagate env name (find_receivers_from env name) res t1 = (res', t2)"
      and t: "t = (if res' \<noteq> [] then
                     t2\<lparr>final_outputs := AList.update name res' (final_outputs t2)\<rparr>
                   else t2)"
      by (auto simp: main_body_def Let_def split: if_splits prod.splits sum.splits)
    from run_and_consume_resets [OF rc] propagate_fields(2,3,4) [OF pr] t
    show ?thesis by (auto simp: witness_inv_def)
  next
    case waits
    with assms Cons show ?thesis
      by (auto simp: main_body_def Let_def witness_inv_def)
  qed
qed

lemma main_step_inv:
  assumes "witness_inv s"
    and "main_step env fuel s = Some (LoopContinue t) \<or> main_step env fuel s = Some (FallThrough t)"
  shows "witness_inv t"
proof (cases "main_body env fuel s")
  case None
  with assms(2) show ?thesis by (simp add: main_step_def)
next
  case (Some fl)
  show ?thesis
  proof (cases fl)
    case (FallThrough s1)
    with Some assms(2) have
      "progress_check env s1 = LoopContinue t \<or> progress_check env s1 = FallThrough t"
      by (simp add: main_step_def)
    moreover have "witness_inv s1"
      using main_body_inv [OF assms(1)] Some FallThrough by blast
    ultimately show ?thesis by (rule progress_check_inv [rotated])
  next
    case (LoopContinue s1)
    with Some assms(2) have "t = s1" by (simp add: main_step_def)
    with main_body_inv [OF assms(1)] Some LoopContinue show ?thesis by blast
  next
    case (Raise e s1)
    with Some assms(2) show ?thesis by (simp add: main_step_def)
  next
    case (LoopBreak s1)
    with Some assms(2) show ?thesis by (simp add: main_step_def)
  qed
qed

lemma main_step_break:
  assumes "witness_inv s" and "main_step env fuel s = Some (LoopBreak s')"
  shows "run_queue s' = [] \<and> waiting_queue s' \<noteq> []
       \<and> (\<exists>W. before_last_waiting_queue s' = Some W \<and> last_waiting_queue s' = Some W)
       \<and> is_stuck_in_a_loop env (waiting_queue s')
       \<and> 2 \<le> drains s' \<and> 1 \<le> warnings s'"
proof -
  have nb: "main_body env fuel s \<noteq> Some (LoopBreak s')"
    by (auto simp: main_body_def cycle_dispatch_def Let_def
             split: list.splits if_splits prod.splits sum.splits option.splits result.splits)
  with assms(2) obtain s1 where
    b: "main_body env fuel s = Some (FallThrough s1)"
    and p: "progress_check env s1 = LoopBreak s'"
    by (auto simp: main_step_def split: option.splits flow.splits)
  have "witness_inv s1" using main_body_inv [OF assms(1)] b by blast
  with progress_check_break [OF p] show ?thesis
    by (auto simp: witness_inv_def)
qed

lemma main_loop_stuck:
  "witness_inv s \<Longrightarrow> main_loop env fuel s = Some (Stuck s') \<Longrightarrow>
     run_queue s' = [] \<and> waiting_queue s' \<noteq> []
       \<and> (\<exists>W. before_last_waiting_queue s' = Some W \<and> last_waiting_queue s' = Some W)
       \<and> is_stuck_in_a_loop env (waiting_queue s')
       \<and> 2 \<le> drains s' \<and> 1 \<le> warnings s'"
proof (induction fuel arbitrary: s)
  case 0
  then show ?case by simp
next
  case (Suc fuel)
  from Suc.prems(2) have ne: "run_queue s \<noteq> []"
    by (auto split: if_splits)
  show ?case
  proof (cases "main_step env fuel s")
    case None
    with Suc.prems(2) ne show ?thesis by simp
  next
    case (Some fl)
    show ?thesis
    proof (cases fl)
      case (Raise e t)
      with Some Suc.prems(2) ne show ?thesis by simp
    next
      case (LoopBreak t)
      with Some Suc.prems(2) ne have "t = s'" by simp
      with main_step_break [OF Suc.prems(1)] Some LoopBreak show ?thesis by blast
    next
      case (LoopContinue t)
      with Some Suc.prems(2) ne have l: "main_loop env fuel t = Some (Stuck s')" by simp
      have "witness_inv t" using main_step_inv [OF Suc.prems(1)] Some LoopContinue by blast
      from Suc.IH [OF this l] show ?thesis .
    next
      case (FallThrough t)
      with Some Suc.prems(2) ne have l: "main_loop env fuel t = Some (Stuck s')" by simp
      have "witness_inv t" using main_step_inv [OF Suc.prems(1)] Some FallThrough by blast
      from Suc.IH [OF this l] show ?thesis .
    qed
  qed
qed

lemma initial_frame_inv: "witness_inv (initial_frame env data c0)"
  by (simp add: witness_inv_def initial_frame_def)


section \<open>Exit of the cycle sub-scheduler\<close>

lemma final_output_reached_False:
  "final_output_reached outs cycle ks = Inr False \<longleftrightarrow>
     (\<forall>k \<in> set ks. \<exists>rs. map_of outs k = Some rs \<and> (\<forall>r \<in> set rs. r \<notin> set cycle))"
  by (induction ks) (auto split: option.splits)

lemma run_component_cri:
  "cycle_received_inputs (snd (run_component env name s)) = cycle_received_inputs s"
  by (auto simp: run_component_def Let_def split: option.splits prod.splits outcome.splits)

lemma sub_run_and_consume_cri:
  "cycle_received_inputs (snd (sub_run_and_consume env cycle name s)) = cycle_received_inputs s"
proof (cases "run_component env name s")
  case (Pair r s1)
  then have "cycle_received_inputs s1 = cycle_received_inputs s"
    using run_component_cri [of env name s] by simp
  with Pair show ?thesis
    by (auto simp: sub_run_and_consume_def Let_def split: sum.splits option.splits)
qed

lemma sub_body_ran:
  assumes "run_queue s = name # rest"
    and "\<not> (is_lazy_variadic env name \<and> \<not> (\<forall>n \<in> set rest. is_lazy_variadic env n))"
    and "component_has_enough_inputs_to_run env name (components_inputs s)"
    and "sub_run_and_consume env cycle name (s\<lparr>run_queue := rest\<rparr>) = (Inr res, t1)"
    and "final_output_reached (output_receivers env name) cycle (map fst res) = Inr reached"
  shows "\<exists>t. sub_body env cycle s = FallThrough t
           \<and> cycle_received_inputs t = (cycle_received_inputs s \<or> \<not> reached)
           \<and> before_last_waiting_queue t = None \<and> last_waiting_queue t = None"
proof -
  let ?t2 = "if \<not> reached then t1\<lparr>cycle_received_inputs := True\<rparr> else t1"
  let ?recv = "filter (\<lambda>item. fst item \<in> set cycle) (find_receivers_from env name)"
  obtain res' t3 where pr: "propagate env name ?recv res ?t2 = (res', t3)"
    by (cases "propagate env name ?recv res ?t2") blast
  have c1: "cycle_received_inputs t1 = cycle_received_inputs s"
    using sub_run_and_consume_cri [of env cycle name "s\<lparr>run_queue := rest\<rparr>"] assms(4)
    by simp
  have body: "sub_body env cycle s =
          FallThrough (if res' \<noteq> [] then
                         t3\<lparr>subgraph_outputs := AList.update name res' (subgraph_outputs t3)\<rparr>
                       else t3)"
    using assms pr by (auto simp: sub_body_def Let_def)
  from propagate_fields(1,2,3) [OF pr] sub_run_and_consume_resets [OF assms(4)] c1 body
  show ?thesis by auto
qed

lemma sub_body_cri:
  assumes "\<not> cycle_received_inputs s"
  shows "cycle_received_inputs (state_of (sub_body env cycle s)) \<longleftrightarrow>
     (\<exists>name rest res t1. run_queue s = name # rest
        \<and> \<not> (is_lazy_variadic env name \<and> \<not> (\<forall>n \<in> set rest. is_lazy_variadic env n))
        \<and> component_has_enough_inputs_to_run env name (components_inputs s)
        \<and> sub_run_and_consume env cycle name (s\<lparr>run_queue := rest\<rparr>) = (Inr res, t1)
        \<and> final_output_reached (output_receivers env name) cycle (map fst res) = Inr False)"
    (is "?L \<longleftrightarrow> ?R")
proof (cases "run_queue s")
  case Nil
  with assms show ?thesis by (simp add: sub_body_def)
next
  case (Cons name rest)
  let ?s0 = "s\<lparr>run_queue := rest\<rparr>"
  show ?thesis
  proof (cases "is_lazy_variadic env name \<and> \<not> (\<forall>n \<in> set rest. is_lazy_variadic env n)")
    case True
    with Cons assms show ?thesis by (auto simp: sub_body_def Let_def)
  next
    case nd: False
    show ?thesis
    proof (cases "component_has_enough_inputs_to_run env name (components_inputs s)")
      case False
      with Cons nd assms show ?thesis by (auto simp: sub_body_def Let_def)
    next
      case he: True
      obtain r t1 where rc: "sub_run_and_consume env cycle name ?s0 = (r, t1)"
        by (cases "sub_run_and_consume env cycle name ?s0") blast
      have c1: "cycle_received_inputs t1 = cycle_received_inputs s"
        using sub_run_and_consume_cri [of env cycle name ?s0] rc by simp
      show ?thesis
      proof (cases r)
        case (Inl e)
        with Cons nd he rc c1 assms show ?thesis by (auto simp: sub_body_def Let_def)
      next
        case (Inr res)
        show ?thesis
        proof (cases "final_output_reached (output_receivers env name) cycle (map fst res)")
          case (Inl e)
          with Cons nd he rc c1 assms \<open>r = Inr res\<close> show ?thesis
            by (auto simp: sub_body_def Let_def)
        next
          case reached: (Inr reached)
          from rc \<open>r = Inr res\<close> have rc': "sub_run_and_consume env cycle name ?s0 = (Inr res, t1)"
            by simp
          from sub_body_ran [OF Cons nd he rc' reached] obtain t where
            "sub_body env cycle s = FallThrough t"
            "cycle_received_inputs t = (cycle_received_inputs s \<or> \<not> reached)"
            by blast
          with Cons nd he rc' reached assms show ?thesis by auto
        qed
      qed
    qed
  qed
qed

lemma sub_body_FallThrough_reset:
  assumes "sub_body env cycle s = FallThrough t"
    and "\<not> cycle_received_inputs s" and "cycle_received_inputs t"
  shows "before_last_waiting_queue t = None \<and> last_waiting_queue t = None"
proof -
  from assms(3) have "cycle_received_inputs (state_of (sub_body env cycle s))"
    by (simp add: assms(1))
  with sub_body_cri [OF assms(2), of env cycle] obtain name rest res t1 where
    h: "run_queue s = name # rest"
       "\<not> (is_lazy_variadic env name \<and> \<not> (\<forall>n \<in> set rest. is_lazy_variadic env n))"
       "component_has_enough_inputs_to_run env name (components_inputs s)"
       "sub_run_and_consume env cycle name (s\<lparr>run_queue := rest\<rparr>) = (Inr res, t1)"
       "final_output_reached (output_receivers env name) cycle (map fst res) = Inr False"
    by blast
  from sub_body_ran [OF h] assms(1) show ?thesis by auto
qed

lemma sub_body_no_break: "sub_body env cycle s \<noteq> LoopBreak t"
  by (auto simp: sub_body_def Let_def
           split: list.splits if_splits prod.splits sum.splits)

lemma sub_step_cri:
  assumes "\<not> cycle_received_inputs s"
  shows "cycle_received_inputs (state_of (sub_step env cycle s)) \<longleftrightarrow>
     (\<exists>name rest res t1. run_queue s = name # rest
        \<and> \<not> (is_lazy_variadic env name \<and> \<not> (\<forall>n \<in> set rest. is_lazy_variadic env n))
        \<and> component_has_enough_inputs_to_run env name (components_inputs s)
        \<and> sub_run_and_consume env cycle name (s\<lparr>run_queue := rest\<rparr>) = (Inr res, t1)
        \<and> final_output_reached (output_receivers env name) cycle (map fst res) = Inr False)"
proof -
  have "cycle_received_inputs (state_of (sub_step env cycle s))
          = cycle_received_inputs (state_of (sub_body env cycle s))"
    by (cases "sub_body env cycle s") (simp_all add: sub_step_def progress_check_cri)
  with sub_body_cri [OF assms] show ?thesis by simp
qed

lemma sub_step_break:
  assumes "sub_step env cycle s = LoopBreak s'" and "\<not> cycle_received_inputs s"
  shows "\<not> cycle_received_inputs s' \<and> run_queue s' = [] \<and> waiting_queue s' \<noteq> []
       \<and> is_stuck_in_a_loop env (waiting_queue s')"
proof -
  from assms(1) sub_body_no_break [of env cycle s] obtain s1 where
    b: "sub_body env cycle s = FallThrough s1" and p: "progress_check env s1 = LoopBreak s'"
    by (cases "sub_body env cycle s") (auto simp: sub_step_def)
  from progress_check_break [OF p] have
    q: "run_queue s1 = []" "waiting_queue s1 \<noteq> []" "before_last_waiting_queue s1 \<noteq> None"
       "is_stuck_in_a_loop env (waiting_queue s1)" "s' = s1\<lparr>warnings := warnings s1 + 1\<rparr>"
    by auto
  have "\<not> cycle_received_inputs s1"
    using sub_body_FallThrough_reset [OF b assms(2)] q(3) by blast
  with q show ?thesis by simp
qed

lemma sub_loop_exit:
  "sub_loop env cycle fuel s = Some r \<Longrightarrow>
     (\<forall>s'. r = Completed s' \<longrightarrow> cycle_received_inputs s')
   \<and> (\<forall>s'. r = Stuck s' \<longrightarrow>
         \<not> cycle_received_inputs s' \<and> run_queue s' = [] \<and> waiting_queue s' \<noteq> []
         \<and> is_stuck_in_a_loop env (waiting_queue s'))"
proof (induction fuel arbitrary: s)
  case 0
  then show ?case by simp
next
  case (Suc fuel)
  show ?case
  proof (cases "cycle_received_inputs s")
    case True
    with Suc.prems show ?thesis by auto
  next
    case False
    show ?thesis
    proof (cases "sub_step env cycle s")
      case (Raise e t)
      with False Suc.prems show ?thesis by auto
    next
      case (LoopBreak t)
      with False Suc.prems have "r = Stuck t" by simp
      with sub_step_break [OF LoopBreak False] show ?thesis by simp
    next
      case (LoopContinue t)
      with False Suc.prems have "sub_loop env cycle fuel t = Some r" by simp
      from Suc.IH [OF this] show ?thesis .
    next
      case (FallThrough t)
      with False Suc.prems have "sub_loop env cycle fuel t = Some r" by simp
      from Suc.IH [OF this] show ?thesis .
    qed
  qed
qed


section \<open>The driver on a consumed stream\<close>

lemma intermediate_fold:
  "map_of (foldl (\<lambda>acc (k, v).
              if (case inc of None \<Rightarrow> True | Some names \<Rightarrow> k \<in> names)
              then AList.update k v acc else acc) acc xs) n =
     (if (case inc of None \<Rightarrow> True | Some names \<Rightarrow> n \<in> names)
      then (case map_of (rev xs) n of None \<Rightarrow> map_of acc n | Some v \<Rightarrow> Some v)
      else map_of acc n)"
proof (induction xs arbitrary: acc)
  case Nil
  then show ?case by simp
next
  case (Cons x xs)
  obtain k v where x: "x = (k, v)" by (cases x)
  show ?case
    unfolding x
    by (simp add: Cons.IH AList.update_conv' map_add_def split: option.splits)
qed

lemma intermediate_outputs_map_of:
  "map_of (intermediate_outputs ds inc) n =
     (if (case inc of None \<Rightarrow> True | Some names \<Rightarrow> n \<in> names)
      then map_of (rev (concat ds)) n else None)"
  by (simp add: intermediate_outputs_def intermediate_fold split: option.splits)

lemma merge_missing_map_of:
  "map_of (merge_missing out inner) k =
     (case map_of inner k of Some v \<Rightarrow> Some v | None \<Rightarrow> map_of out k)"
proof (induction out arbitrary: inner)
  case Nil
  then show ?case by (simp split: option.splits)
next
  case (Cons x out)
  obtain k' v' where x: "x = (k', v')" by (cases x)
  show ?case
  proof (cases "k' \<in> set (map fst inner)")
    case True
    then obtain w where "map_of inner k' = Some w"
      by (cases "map_of inner k'") (auto simp: map_of_eq_None_iff)
    with True show ?thesis
      unfolding x by (simp add: Cons.IH split: option.splits)
  next
    case False
    then have "map_of inner k' = None"
      by (simp add: map_of_eq_None_iff)
    with False show ?thesis
      unfolding x by (simp add: Cons.IH AList.update_conv' split: option.splits)
  qed
qed

lemma accumulate_outputs_unlisted:
  "n \<notin> fst ` set extra \<Longrightarrow> map_of (accumulate_outputs extra final) n = map_of final n"
  by (induction extra final rule: accumulate_outputs.induct)
     (auto simp: AList.update_conv' split: option.splits)

lemma collect_outputs_unlisted:
  assumes "collect_outputs outs (Some names) = Inr result" and "n \<notin> names"
  shows "map_of result n = map_of (last outs) n"
proof -
  from assms(1) have r: "result = accumulate_outputs (intermediate_outputs (butlast outs) (Some names)) (last outs)"
    by (auto simp: collect_outputs_def split: if_splits)
  have "map_of (intermediate_outputs (butlast outs) (Some names)) n = None"
    using assms(2) by (simp add: intermediate_outputs_map_of)
  then have "n \<notin> fst ` set (intermediate_outputs (butlast outs) (Some names))"
    by (simp add: map_of_eq_None_iff)
  from accumulate_outputs_unlisted [OF this] r show ?thesis by simp
qed

lemma intermediate_outputs_empty_set: "intermediate_outputs ds (Some {}) = []"
proof -
  have "map_of (intermediate_outputs ds (Some {})) n = None" for n
    by (simp add: intermediate_outputs_map_of)
  then have "fst ` set (intermediate_outputs ds (Some {})) = {}"
    by (metis map_of_eq_None_iff all_not_in_conv)
  then show ?thesis by simp
qed

lemma collect_outputs_empty_set:
  "outs \<noteq> [] \<Longrightarrow> collect_outputs outs (Some {}) = Inr (last outs)"
  by (simp add: collect_outputs_def intermediate_outputs_empty_set)

section \<open>The visit counters\<close>

lemma delete_consumed_inputs_error:
  "delete_consumed_inputs sd ks inputs = Inl e \<Longrightarrow> e = KeyError"
  by (induction ks arbitrary: inputs) (auto split: option.splits if_splits)

lemma delete_cycle_inputs_error:
  "delete_cycle_inputs sd cycle ks inputs = Inl e \<Longrightarrow> e = KeyError"
  by (induction ks arbitrary: inputs) (auto split: option.splits if_splits)

lemma run_component_error:
  "fst (run_component env name s) \<noteq> Inl PipelineMaxComponentRuns"
  by (auto simp: run_component_def Let_def split: option.splits prod.splits outcome.splits)

lemma visit_check_admits_maximum:
  assumes "int (visits s name) \<le> max_runs_per_component env"
  shows "fst (run_and_consume env name s) \<noteq> Inl PipelineMaxComponentRuns
       \<and> fst (sub_run_and_consume env cycle name s) \<noteq> Inl PipelineMaxComponentRuns"
proof (cases "run_component env name s")
  case (Pair r s1)
  with run_component_error [of env name s] have "r \<noteq> Inl PipelineMaxComponentRuns"
    by simp
  with Pair assms show ?thesis
    by (auto simp: run_and_consume_def sub_run_and_consume_def Let_def
             dest: delete_consumed_inputs_error delete_cycle_inputs_error
             split: option.splits sum.splits)
qed

lemma run_component_visits:
  "visits (snd (run_component env name s)) = visits s
   \<or> visits (snd (run_component env name s)) = (visits s)(name := visits s name + 1)"
  by (auto simp: run_component_def Let_def split: option.splits prod.splits outcome.splits)

lemma run_and_consume_visits:
  "visits (snd (run_and_consume env name s)) = visits (snd (run_component env name s))
   \<or> visits (snd (run_and_consume env name s)) = visits s"
  by (cases "run_component env name s")
     (auto simp: run_and_consume_def Let_def split: sum.splits option.splits)

lemma sub_run_and_consume_visits:
  "visits (snd (sub_run_and_consume env cycle name s)) = visits (snd (run_component env name s))
   \<or> visits (snd (sub_run_and_consume env cycle name s)) = visits s"
  by (cases "run_component env name s")
     (auto simp: sub_run_and_consume_def Let_def split: sum.splits option.splits)

lemma run_and_consume_bounded:
  assumes "visits_bounded env s"
  shows "visits_bounded env (snd (run_and_consume env name s))"
proof (cases "int (visits s name) > max_runs_per_component env")
  case True
  with assms show ?thesis by (simp add: run_and_consume_def)
next
  case False
  then have "visits_bounded env (s\<lparr>visits := (visits s)(name := visits s name + 1)\<rparr>)"
    using assms by (auto simp: visits_bounded_def)
  then have "visits_bounded env (snd (run_component env name s))"
    using run_component_visits [of env name s] assms
    by (auto simp: visits_bounded_def)
  with run_and_consume_visits [of env name s] assms show ?thesis
    by (auto simp: visits_bounded_def)
qed

lemma sub_run_and_consume_bounded:
  assumes "visits_bounded env s"
  shows "visits_bounded env (snd (sub_run_and_consume env cycle name s))"
proof (cases "int (visits s name) > max_runs_per_component env")
  case True
  with assms show ?thesis by (simp add: sub_run_and_consume_def)
next
  case False
  then have "visits_bounded env (s\<lparr>visits := (visits s)(name := visits s name + 1)\<rparr>)"
    using assms by (auto simp: visits_bounded_def)
  then have "visits_bounded env (snd (run_component env name s))"
    using run_component_visits [of env name s] assms
    by (auto simp: visits_bounded_def)
  with sub_run_and_consume_visits [of env cycle name s] assms show ?thesis
    by (auto simp: visits_bounded_def)
qed

lemma progress_check_visits: "visits (state_of (progress_check env s)) = visits s"
  by (auto simp: progress_check_def Let_def split: if_splits prod.splits)

lemma propagate_visits: "visits (snd (propagate env name receivers res s)) = visits s"
  by (auto simp: propagate_def Let_def split: prod.splits)

lemma distribute_subgraph_output_visits:
  "visits (distribute_subgraph_output env outs s) = visits s"
  by (induction env outs s rule: distribute_subgraph_output.induct)
     (auto simp: Let_def split: prod.splits)

lemma sub_body_bounded:
  assumes "visits_bounded env s"
  shows "visits_bounded env (state_of (sub_body env cycle s))"
proof (cases "run_queue s")
  case Nil
  with assms show ?thesis by (simp add: sub_body_def)
next
  case (Cons name rest)
  let ?s0 = "s\<lparr>run_queue := rest\<rparr>"
  have b0: "visits_bounded env ?s0" using assms by (simp add: visits_bounded_def)
  show ?thesis
  proof (cases "is_lazy_variadic env name \<and> \<not> (\<forall>n \<in> set rest. is_lazy_variadic env n)")
    case True
    with Cons assms show ?thesis by (auto simp: sub_body_def Let_def visits_bounded_def)
  next
    case nd: False
    show ?thesis
    proof (cases "component_has_enough_inputs_to_run env name (components_inputs s)")
      case False
      with Cons nd assms show ?thesis by (auto simp: sub_body_def Let_def visits_bounded_def)
    next
      case he: True
      obtain r t1 where rc: "sub_run_and_consume env cycle name ?s0 = (r, t1)"
        by (cases "sub_run_and_consume env cycle name ?s0") blast
      with sub_run_and_consume_bounded [OF b0, of cycle name] have b1: "visits_bounded env t1"
        by simp
      show ?thesis
      proof (cases r)
        case (Inl e)
        with Cons nd he rc b1 show ?thesis by (auto simp: sub_body_def Let_def)
      next
        case (Inr res)
        show ?thesis
        proof (cases "final_output_reached (output_receivers env name) cycle (map fst res)")
          case (Inl e)
          with Cons nd he rc b1 \<open>r = Inr res\<close> show ?thesis
            by (auto simp: sub_body_def Let_def)
        next
          case reached: (Inr reached)
          let ?t2 = "if \<not> reached then t1\<lparr>cycle_received_inputs := True\<rparr> else t1"
          let ?recv = "filter (\<lambda>item. fst item \<in> set cycle) (find_receivers_from env name)"
          obtain res' t3 where pr: "propagate env name ?recv res ?t2 = (res', t3)"
            by (cases "propagate env name ?recv res ?t2") blast
          have v3: "visits t3 = visits t1"
            using propagate_visits [of env name ?recv res ?t2] pr by (simp split: if_splits)
          have body: "sub_body env cycle s =
              FallThrough (if res' \<noteq> [] then
                             t3\<lparr>subgraph_outputs := AList.update name res' (subgraph_outputs t3)\<rparr>
                           else t3)"
            using Cons nd he rc \<open>r = Inr res\<close> reached pr by (auto simp: sub_body_def Let_def)
          from b1 v3 show ?thesis
            unfolding body by (simp add: visits_bounded_def)
        qed
      qed
    qed
  qed
qed

lemma sub_step_bounded:
  assumes "visits_bounded env s"
  shows "visits_bounded env (state_of (sub_step env cycle s))"
proof -
  have "visits (state_of (sub_step env cycle s)) = visits (state_of (sub_body env cycle s))"
    by (cases "sub_body env cycle s") (simp_all add: sub_step_def progress_check_visits)
  with sub_body_bounded [OF assms, of cycle] show ?thesis
    by (simp add: visits_bounded_def)
qed

lemma sub_loop_bounded:
  "visits_bounded env s \<Longrightarrow> sub_loop env cycle fuel s = Some r \<Longrightarrow>
     state_at_exit (Some r) = Some s' \<Longrightarrow> visits_bounded env s'"
proof (induction fuel arbitrary: s)
  case 0
  then show ?case by simp
next
  case (Suc fuel)
  show ?case
  proof (cases "cycle_received_inputs s")
    case True
    with Suc.prems show ?thesis by auto
  next
    case False
    from sub_step_bounded [OF Suc.prems(1), of cycle]
    have b: "visits_bounded env (state_of (sub_step env cycle s))" .
    show ?thesis
    proof (cases "sub_step env cycle s")
      case (Raise e t)
      with False Suc.prems b show ?thesis by auto
    next
      case (LoopBreak t)
      with False Suc.prems b show ?thesis by auto
    next
      case (LoopContinue t)
      with False Suc.prems have "sub_loop env cycle fuel t = Some r" by simp
      moreover from b LoopContinue have "visits_bounded env t" by simp
      ultimately show ?thesis using Suc.IH Suc.prems(3) by blast
    next
      case (FallThrough t)
      with False Suc.prems have "sub_loop env cycle fuel t = Some r" by simp
      moreover from b FallThrough have "visits_bounded env t" by simp
      ultimately show ?thesis using Suc.IH Suc.prems(3) by blast
    qed
  qed
qed

lemma cycle_dispatch_bounded:
  assumes "visits_bounded env s" and "cycle_dispatch env fuel cycle name s = Some fl"
  shows "visits_bounded env (state_of fl)"
proof (cases "initial_run_queue cycle name")
  case (Inl e)
  with assms show ?thesis
    by (auto simp: cycle_dispatch_def run_subgraph_def visits_bounded_def)
next
  case (Inr rq)
  let ?sub = "s\<lparr>run_queue := rq, waiting_queue := [],
               before_last_waiting_queue := None, last_waiting_queue := None, drains := 0,
               subgraph_outputs := [], cycle_received_inputs := False\<rparr>"
  have bs: "visits_bounded env ?sub" using assms(1) by (simp add: visits_bounded_def)
  from assms(2) Inr obtain r where l: "sub_loop env cycle fuel ?sub = Some r"
    by (auto simp: cycle_dispatch_def run_subgraph_def split: option.splits)
  obtain s' where e: "state_at_exit (Some r) = Some s'"
    by (cases r) auto
  from sub_loop_bounded [OF bs l e] have b': "visits_bounded env s'" .
  have "visits (state_of fl) = visits s'"
    using assms(2) Inr l e
    by (cases r)
       (auto simp: cycle_dispatch_def run_subgraph_def Let_def distribute_subgraph_output_visits)
  with b' show ?thesis by (simp add: visits_bounded_def)
qed

lemma main_body_bounded:
  assumes "visits_bounded env s" and "main_body env fuel s = Some fl"
  shows "visits_bounded env (state_of fl)"
proof (cases "run_queue s")
  case Nil
  with assms show ?thesis by (auto simp: main_body_def)
next
  case (Cons name rest)
  let ?s0 = "s\<lparr>run_queue := rest\<rparr>"
  have b0: "visits_bounded env ?s0" using assms by (simp add: visits_bounded_def)
  show ?thesis
  proof (cases "is_lazy_variadic env name \<and> \<not> (\<forall>n \<in> set rest. is_lazy_variadic env n)")
    case True
    with Cons assms show ?thesis by (auto simp: main_body_def Let_def visits_bounded_def)
  next
    case nd: False
    show ?thesis
    proof (cases "component_has_enough_inputs_to_run env name (components_inputs s)")
      case False
      with Cons nd assms show ?thesis by (auto simp: main_body_def Let_def visits_bounded_def)
    next
      case he: True
      show ?thesis
      proof (cases "components_in_cycles env name = []")
        case False
        with Cons nd he assms(2) have
          "cycle_dispatch env fuel (hd (components_in_cycles env name)) name ?s0 = Some fl"
          by (auto simp: main_body_def Let_def)
        from cycle_dispatch_bounded [OF b0 this] show ?thesis .
      next
        case nc: True
        obtain r t1 where rc: "run_and_consume env name ?s0 = (r, t1)"
          by (cases "run_and_consume env name ?s0") blast
        with run_and_consume_bounded [OF b0, of name] have b1: "visits_bounded env t1"
          by simp
        show ?thesis
        proof (cases r)
          case (Inl e)
          with Cons nd he nc rc b1 assms(2) show ?thesis by (auto simp: main_body_def Let_def)
        next
          case (Inr res)
          obtain res' t2 where
            pr: "propagate env name (find_receivers_from env name) res t1 = (res', t2)"
            by (cases "propagate env name (find_receivers_from env name) res t1") blast
          have v2: "visits t2 = visits t1"
            using propagate_visits [of env name "find_receivers_from env name" res t1] pr
            by simp
          have "fl = FallThrough (if res' \<noteq> [] then
                        t2\<lparr>final_outputs := AList.update name res' (final_outputs t2)\<rparr>
                      else t2)"
            using Cons nd he nc rc Inr pr assms(2) by (auto simp: main_body_def Let_def)
          with b1 v2 show ?thesis by (simp add: visits_bounded_def)
        qed
      qed
    qed
  qed
qed

lemma main_step_bounded:
  assumes "visits_bounded env s" and "main_step env fuel s = Some fl"
  shows "visits_bounded env (state_of fl)"
proof (cases "main_body env fuel s")
  case None
  with assms(2) show ?thesis by (simp add: main_step_def)
next
  case (Some b)
  from main_body_bounded [OF assms(1) Some] have bb: "visits_bounded env (state_of b)" .
  show ?thesis
  proof (cases b)
    case (FallThrough s1)
    with Some assms(2) have "fl = progress_check env s1" by (simp add: main_step_def)
    with bb FallThrough progress_check_visits [of env s1] show ?thesis
      by (simp add: visits_bounded_def)
  next
    case (Raise e s1)
    with Some assms(2) bb show ?thesis by (auto simp: main_step_def)
  next
    case (LoopBreak s1)
    with Some assms(2) bb show ?thesis by (auto simp: main_step_def)
  next
    case (LoopContinue s1)
    with Some assms(2) bb show ?thesis by (auto simp: main_step_def)
  qed
qed

lemma main_loop_bounded:
  "visits_bounded env s \<Longrightarrow> main_loop env fuel s = Some r \<Longrightarrow>
     state_at_exit (Some r) = Some s' \<Longrightarrow> visits_bounded env s'"
proof (induction fuel arbitrary: s)
  case 0
  then show ?case by simp
next
  case (Suc fuel)
  show ?case
  proof (cases "run_queue s = []")
    case True
    with Suc.prems show ?thesis by auto
  next
    case False
    show ?thesis
    proof (cases "main_step env fuel s")
      case None
      with False Suc.prems show ?thesis by simp
    next
      case (Some fl)
      from main_step_bounded [OF Suc.prems(1) Some] have b: "visits_bounded env (state_of fl)" .
      show ?thesis
      proof (cases fl)
        case (Raise e t)
        with False Some Suc.prems b show ?thesis by auto
      next
        case (LoopBreak t)
        with False Some Suc.prems b show ?thesis by auto
      next
        case (LoopContinue t)
        with False Some Suc.prems have "main_loop env fuel t = Some r" by simp
        moreover from b LoopContinue have "visits_bounded env t" by simp
        ultimately show ?thesis using Suc.IH Suc.prems(3) by blast
      next
        case (FallThrough t)
        with False Some Suc.prems have "main_loop env fuel t = Some r" by simp
        moreover from b FallThrough have "visits_bounded env t" by simp
        ultimately show ?thesis using Suc.IH Suc.prems(3) by blast
      qed
    qed
  qed
qed

lemma visits_bounded_by_maximum_plus_one:
  assumes "state_at_exit (run env fuel data c0) = Some s"
  shows "int (visits s n) \<le> max 0 (max_runs_per_component env + 1)"
proof -
  have i: "visits_bounded env (initial_frame env data c0)"
    by (simp add: visits_bounded_def initial_frame_def)
  from assms obtain r s0 where
    l: "main_loop env fuel (initial_frame env data c0) = Some r"
    and e: "state_at_exit (Some r) = Some s0" and v: "visits s = visits s0"
    by (cases "main_loop env fuel (initial_frame env data c0)" rule: exit_of.cases)
       (auto simp: run_def)
  from main_loop_bounded [OF i l e] v show ?thesis
    by (simp add: visits_bounded_def)
qed

section \<open>Lazy-variadic deferral\<close>




section \<open>The terminal item of the stream\<close>

text \<open>
  Claim C5: whenever \<^verbatim>\<open>run\<close> ends without an exception, by the loop condition or by the
  stuck-loop \<^verbatim>\<open>break\<close>, the stream is what the loop yielded followed by the accumulated
  \<open>final_outputs\<close>: the stream is not empty and its last item is \<open>final_outputs\<close>.
\<close>

theorem final_outputs_yielded_last:
  assumes "run env fuel data c0 = Some r"
    and "r = Stuck s \<or> r = Completed s"
  shows "yielded s \<noteq> [] \<and> last (yielded s) = final_outputs s
       \<and> (\<exists>s0. (main_loop env fuel (initial_frame env data c0) = Some (Stuck s0)
                  \<or> main_loop env fuel (initial_frame env data c0) = Some (Completed s0))
               \<and> yielded s = yielded s0 @ [final_outputs s0])"
  using assms
  by (auto simp: run_def split: option.splits result.splits)


theorem final_outputs_yielded_last_witness:
  "\<exists>s. run stuck_env 10 stuck_data 0 = Some (Stuck s)
       \<and> yielded s \<noteq> [] \<and> last (yielded s) = final_outputs s
       \<and> yielded s = [[(''a'', [])], []]"
proof -
  have "exit_of (run stuck_env 10 stuck_data 0) = ByBreak"
    by code_simp
  then obtain s where r: "run stuck_env 10 stuck_data 0 = Some (Stuck s)"
    by (cases "run stuck_env 10 stuck_data 0" rule: exit_of.cases) auto
  have "map_option yielded (state_at_exit (run stuck_env 10 stuck_data 0))
          = Some [[(''a'', [])], []]"
    by code_simp
  with r have y: "yielded s = [[(''a'', [])], []]" by simp
  from final_outputs_yielded_last [OF r, of s] r y show ?thesis by blast
qed

section \<open>Deletion of consumed inputs in the main loop\<close>

text \<open>
  Claim C8: when the main loop has run a component successfully (visit check, invocation,
  yield and deletion, lines 475--493), then (a) \<^verbatim>\<open>_run_component\<close> left the component's
  entry of the store with the same sockets, every variadic socket that was present reset
  to the empty list and the others unchanged; (b) after the deletion every socket of that
  entry is a declared socket, is absent when its senders are not empty, and is retained
  with the value that \<^verbatim>\<open>_run_component\<close> left (the empty list for a variadic socket)
  when its senders are empty.  This is the state in which the output is distributed and
  the next component is chosen.
\<close>

theorem main_loop_consumes_inputs:
  assumes "run_and_consume env name s = (Inr res, s')"
  shows "\<exists>inputs consumed inputs'.
           map_of (components_inputs s) name = Some inputs
         \<and> map_of (components_inputs (snd (run_component env name s))) name = Some consumed
         \<and> map_of (components_inputs s') name = Some inputs'
         \<and> map fst consumed = map fst inputs
         \<and> (\<forall>k. map_of consumed k =
                  (if k \<in> set (map fst inputs)
                      \<and> (\<exists>socket \<in> set (map snd (input_sockets env name)).
                            sock_name socket = k \<and> is_variadic socket)
                   then Some (VList []) else map_of inputs k))
         \<and> (\<forall>k \<in> set (map fst inputs).
                \<exists>socket. map_of (input_sockets env name) k = Some socket
                  \<and> (if senders socket \<noteq> [] then map_of inputs' k = None
                      else map_of inputs' k = map_of consumed k))"
proof -
  from run_and_consume_Inr [OF assms] obtain s1 consumed inputs' where
    rc: "run_component env name s = (Inr res, s1)"
    and c0: "map_of (components_inputs s1) name = Some consumed"
    and d0: "delete_consumed_inputs (input_sockets env name) (map fst consumed) consumed
              = Inr inputs'"
    and s'eq: "s' = s1\<lparr>yielded := yielded s1 @ [[(name, res)]],
                     components_inputs := AList.update name inputs' (components_inputs s1),
                     before_last_waiting_queue := None,
                     last_waiting_queue := None,
                     drains := 0\<rparr>"
    by blast
  from run_component_Inr [OF rc] obtain inputs c' where
    i: "map_of (components_inputs s) name = Some inputs"
    and s1: "s1 = s\<lparr>comp_state := c',
                     visits := (visits s)(name := visits s name + 1),
                     components_inputs :=
                       AList.update name
                         (reset_variadic (map snd (input_sockets env name)) inputs)
                         (components_inputs s)\<rparr>"
    by blast
  let ?consumed = "reset_variadic (map snd (input_sockets env name)) inputs"
  have c: "map_of (components_inputs s1) name = Some ?consumed"
    by (simp add: s1 AList.update_conv')
  with c0 have ceq: "consumed = ?consumed" by simp
  have d: "delete_consumed_inputs (input_sockets env name) (map fst ?consumed) ?consumed
             = Inr inputs'"
    using d0 ceq by simp
  have s': "map_of (components_inputs s') name = Some inputs'"
    by (simp add: s'eq AList.update_conv')
  have keys: "map fst ?consumed = map fst inputs"
    by (rule reset_variadic_keys)
  have "\<forall>k \<in> set (map fst inputs).
          \<exists>socket. map_of (input_sockets env name) k = Some socket
            \<and> (if senders socket \<noteq> [] then map_of inputs' k = None
                else map_of inputs' k = map_of ?consumed k)"
  proof
    fix k assume k: "k \<in> set (map fst inputs)"
    then have "k \<in> set (map fst ?consumed)" by (simp only: keys)
    from delete_consumed_inputs_declared [OF d this] obtain socket where
      sk: "map_of (input_sockets env name) k = Some socket" by blast
    show "\<exists>socket. map_of (input_sockets env name) k = Some socket
            \<and> (if senders socket \<noteq> [] then map_of inputs' k = None
                else map_of inputs' k = map_of ?consumed k)"
      using sk k delete_consumed_inputs_map_of [OF d, of k] keys by auto
  qed
  with i c s' keys rc show ?thesis
    by (auto simp: reset_variadic_map_of)
qed


theorem main_loop_consumes_inputs_witness:
  "\<exists>s'. run_and_consume mixed_env ''j'' (initial_frame mixed_env mixed_data 0)
           = (Inr [(''output'', VInt 1)], s')
       \<and> map_of (components_inputs s') ''j'' = Some [(''in'', VList [])]
       \<and> (\<exists>inputs consumed inputs'.
             map_of (components_inputs (initial_frame mixed_env mixed_data 0)) ''j'' = Some inputs
           \<and> map_of (components_inputs
                       (snd (run_component mixed_env ''j''
                               (initial_frame mixed_env mixed_data 0)))) ''j'' = Some consumed
           \<and> map_of (components_inputs s') ''j'' = Some inputs'
           \<and> map fst consumed = map fst inputs)"
proof -
  let ?s = "initial_frame mixed_env mixed_data 0"
  have "fst (run_and_consume mixed_env ''j'' ?s) = Inr [(''output'', VInt 1)]"
    by code_simp
  then obtain s' where r: "run_and_consume mixed_env ''j'' ?s = (Inr [(''output'', VInt 1)], s')"
    by (cases "run_and_consume mixed_env ''j'' ?s") auto
  have "map_of (components_inputs (snd (run_and_consume mixed_env ''j'' ?s))) ''j''
          = Some [(''in'', VList [])]"
    by code_simp
  with r have e: "map_of (components_inputs s') ''j'' = Some [(''in'', VList [])]" by simp
  from main_loop_consumes_inputs [OF r] r e show ?thesis by blast
qed

section \<open>Deletion of consumed inputs inside a cycle\<close>

text \<open>
  Claim C7: when the sub-scheduler of a cycle has run a component successfully (lines
  200--223), every socket of the component's entry of the store, as \<^verbatim>\<open>_run_component\<close>
  left it, is a declared socket; it is deleted if and only if its senders are not empty and
  all of them are in the cycle, and a socket that is not deleted keeps its value.
\<close>

theorem cycle_consumes_inputs:
  assumes "sub_run_and_consume env cycle name s = (Inr res, s')"
  shows "\<exists>consumed inputs'.
           map_of (components_inputs (snd (run_component env name s))) name = Some consumed
         \<and> map_of (components_inputs s') name = Some inputs'
         \<and> (\<forall>k \<in> set (map fst consumed).
                \<exists>socket. map_of (input_sockets env name) k = Some socket
                  \<and> (map_of inputs' k = None \<longleftrightarrow>
                       senders socket \<noteq> []
                       \<and> (\<forall>sender \<in> set (senders socket). sender \<in> set cycle))
                  \<and> (map_of inputs' k \<noteq> None \<longrightarrow> map_of inputs' k = map_of consumed k))"
proof -
  from sub_run_and_consume_Inr [OF assms] obtain s1 consumed inputs' where
    rc: "run_component env name s = (Inr res, s1)"
    and c: "map_of (components_inputs s1) name = Some consumed"
    and d: "delete_cycle_inputs (input_sockets env name) cycle (map fst consumed) consumed
              = Inr inputs'"
    and s'eq: "s' = s1\<lparr>yielded := yielded s1 @ [[(name, res)]],
                     components_inputs := AList.update name inputs' (components_inputs s1),
                     before_last_waiting_queue := None,
                     last_waiting_queue := None,
                     drains := 0\<rparr>"
    by blast
  have s': "map_of (components_inputs s') name = Some inputs'"
    by (simp add: s'eq AList.update_conv')
  have "\<forall>k \<in> set (map fst consumed).
          \<exists>socket. map_of (input_sockets env name) k = Some socket
            \<and> (map_of inputs' k = None \<longleftrightarrow>
                 senders socket \<noteq> []
                 \<and> (\<forall>sender \<in> set (senders socket). sender \<in> set cycle))
            \<and> (map_of inputs' k \<noteq> None \<longrightarrow> map_of inputs' k = map_of consumed k)"
  proof
    fix k assume k: "k \<in> set (map fst consumed)"
    from delete_cycle_inputs_declared [OF d k] obtain socket where
      sk: "map_of (input_sockets env name) k = Some socket" by blast
    from k have present: "map_of consumed k \<noteq> None"
      by (simp add: map_of_eq_None_iff)
    show "\<exists>socket. map_of (input_sockets env name) k = Some socket
            \<and> (map_of inputs' k = None \<longleftrightarrow>
                 senders socket \<noteq> []
                 \<and> (\<forall>sender \<in> set (senders socket). sender \<in> set cycle))
            \<and> (map_of inputs' k \<noteq> None \<longrightarrow> map_of inputs' k = map_of consumed k)"
      using sk k present delete_cycle_inputs_map_of [OF d, of k] by auto
  qed
  with c s' rc show ?thesis by auto
qed


theorem cycle_consumes_inputs_witness:
  "\<exists>s'. sub_run_and_consume cyc_env [''a'', ''b''] ''b'' (initial_frame cyc_env cyc_full_data 0)
           = (Inr [(''out'', VInt 1)], s')
       \<and> map_of (components_inputs s') ''b'' = Some [(''y'', VInt 2)]
       \<and> (\<exists>consumed inputs'.
             map_of (components_inputs
                       (snd (run_component cyc_env ''b''
                               (initial_frame cyc_env cyc_full_data 0)))) ''b'' = Some consumed
           \<and> map_of (components_inputs s') ''b'' = Some inputs')"
proof -
  let ?s = "initial_frame cyc_env cyc_full_data 0"
  have "fst (sub_run_and_consume cyc_env [''a'', ''b''] ''b'' ?s) = Inr [(''out'', VInt 1)]"
    by code_simp
  then obtain s' where
    r: "sub_run_and_consume cyc_env [''a'', ''b''] ''b'' ?s = (Inr [(''out'', VInt 1)], s')"
    by (cases "sub_run_and_consume cyc_env [''a'', ''b''] ''b'' ?s") auto
  have "map_of (components_inputs (snd (sub_run_and_consume cyc_env [''a'', ''b''] ''b'' ?s))) ''b''
          = Some [(''y'', VInt 2)]"
    by code_simp
  with r have e: "map_of (components_inputs s') ''b'' = Some [(''y'', VInt 2)]" by simp
  from cycle_consumes_inputs [OF r] r e show ?thesis by blast
qed

section \<open>The stuck-loop warning\<close>

text \<open>
  Claim C9: when \<^verbatim>\<open>run\<close> ends by the stuck-loop \<^verbatim>\<open>break\<close>, then at that moment the run
  queue is drained, the waiting queue is not empty, both witnesses are defined and equal,
  the stuck predicate holds of the waiting queue, a warning was emitted, the stream ends
  with \<open>final_outputs\<close>, and at least two earlier drains happened since the witnesses were
  last reset.  Every successful run of a component resets both witnesses (and with them the
  count of drains), in the main loop, in the sub-scheduler and at the end of a cycle.
\<close>

theorem stuck_warning_conditions:
  assumes "run env fuel data c0 = Some (Stuck s)"
  shows "run_queue s = [] \<and> waiting_queue s \<noteq> []
       \<and> (\<exists>W. before_last_waiting_queue s = Some W \<and> last_waiting_queue s = Some W)
       \<and> is_stuck_in_a_loop env (waiting_queue s)
       \<and> 2 \<le> drains s \<and> 1 \<le> warnings s
       \<and> last (yielded s) = final_outputs s
       \<and> (\<forall>name t res t'. run_and_consume env name t = (Inr res, t') \<longrightarrow>
            before_last_waiting_queue t' = None \<and> last_waiting_queue t' = None
            \<and> drains t' = 0)
       \<and> (\<forall>cycle name t res t'. sub_run_and_consume env cycle name t = (Inr res, t') \<longrightarrow>
            before_last_waiting_queue t' = None \<and> last_waiting_queue t' = None
            \<and> drains t' = 0)
       \<and> (\<forall>n cycle name t t'. cycle_dispatch env n cycle name t = Some (FallThrough t') \<longrightarrow>
            before_last_waiting_queue t' = None \<and> last_waiting_queue t' = None
            \<and> drains t' = 0)"
proof -
  from assms obtain s0 where
    l: "main_loop env fuel (initial_frame env data c0) = Some (Stuck s0)"
    and s: "s = s0\<lparr>yielded := yielded s0 @ [final_outputs s0]\<rparr>"
    by (auto simp: run_def split: option.splits result.splits)
  from main_loop_stuck [OF initial_frame_inv l] s
  have a: "run_queue s = [] \<and> waiting_queue s \<noteq> []
       \<and> (\<exists>W. before_last_waiting_queue s = Some W \<and> last_waiting_queue s = Some W)
       \<and> is_stuck_in_a_loop env (waiting_queue s)
       \<and> 2 \<le> drains s \<and> 1 \<le> warnings s
       \<and> last (yielded s) = final_outputs s"
    by simp
  have b: "\<forall>name t res t'. run_and_consume env name t = (Inr res, t') \<longrightarrow>
            before_last_waiting_queue t' = None \<and> last_waiting_queue t' = None
            \<and> drains t' = 0"
    using run_and_consume_resets by blast
  have c: "\<forall>cycle name t res t'. sub_run_and_consume env cycle name t = (Inr res, t') \<longrightarrow>
            before_last_waiting_queue t' = None \<and> last_waiting_queue t' = None
            \<and> drains t' = 0"
    using sub_run_and_consume_resets by blast
  have d: "\<forall>n cycle name t t'. cycle_dispatch env n cycle name t = Some (FallThrough t') \<longrightarrow>
            before_last_waiting_queue t' = None \<and> last_waiting_queue t' = None
            \<and> drains t' = 0"
  proof (intro allI impI)
    fix n cycle name t t'
    assume "cycle_dispatch env n cycle name t = Some (FallThrough t')"
    from cycle_dispatch_resets [OF this]
    show "before_last_waiting_queue t' = None \<and> last_waiting_queue t' = None \<and> drains t' = 0"
      by auto
  qed
  from a b c d show ?thesis by blast
qed

theorem stuck_warning_conditions_witness:
  "\<exists>s. run stuck_env 10 stuck_data 0 = Some (Stuck s)
       \<and> run_queue s = [] \<and> waiting_queue s = [''z'']
       \<and> (\<exists>W. before_last_waiting_queue s = Some W \<and> last_waiting_queue s = Some W)
       \<and> is_stuck_in_a_loop stuck_env (waiting_queue s)
       \<and> 2 \<le> drains s \<and> 1 \<le> warnings s"
proof -
  have "exit_of (run stuck_env 10 stuck_data 0) = ByBreak"
    by code_simp
  then obtain s where r: "run stuck_env 10 stuck_data 0 = Some (Stuck s)"
    by (cases "run stuck_env 10 stuck_data 0" rule: exit_of.cases) auto
  have "map_option waiting_queue (state_at_exit (run stuck_env 10 stuck_data 0)) = Some [''z'']"
    by code_simp
  with r have w: "waiting_queue s = [''z'']" by simp
  from stuck_warning_conditions [OF r] r w show ?thesis by blast
qed

section \<open>How the cycle sub-scheduler ends\<close>

text \<open>
  Claim C6, as the code has it: the loop of the sub-scheduler ends without an exception
  either because \<open>cycle_received_inputs\<close> is true, or through the stuck-loop \<^verbatim>\<open>break\<close> of
  the progress check, and then \<open>cycle_received_inputs\<close> is still false.  Once
  \<open>cycle_received_inputs\<close> is true the loop ends at its next test, so no further component
  runs.  A pass that starts with \<open>cycle_received_inputs\<close> false makes it true exactly when
  the popped component is not deferred, is ready, runs successfully, and every output socket
  in its result is declared and has no receiver in the cycle.
\<close>

theorem sub_scheduler_exit:
  assumes "run_subgraph env fuel cycle component_name s = Some r"
  shows "(\<forall>s'. r = Completed s' \<longrightarrow> cycle_received_inputs s')
       \<and> (\<forall>s'. r = Stuck s' \<longrightarrow>
            \<not> cycle_received_inputs s' \<and> run_queue s' = [] \<and> waiting_queue s' \<noteq> []
            \<and> is_stuck_in_a_loop env (waiting_queue s'))
       \<and> (\<forall>t. cycle_received_inputs t \<longrightarrow> sub_loop env cycle (Suc fuel) t = Some (Completed t))
       \<and> (\<forall>t. \<not> cycle_received_inputs t \<longrightarrow>
            (cycle_received_inputs (state_of (sub_step env cycle t)) \<longleftrightarrow>
               (\<exists>name rest res t1. run_queue t = name # rest
                  \<and> \<not> (is_lazy_variadic env name
                        \<and> \<not> (\<forall>n \<in> set rest. is_lazy_variadic env n))
                  \<and> component_has_enough_inputs_to_run env name (components_inputs t)
                  \<and> sub_run_and_consume env cycle name (t\<lparr>run_queue := rest\<rparr>) = (Inr res, t1)
                  \<and> (\<forall>k \<in> set (map fst res).
                        \<exists>rs. map_of (output_receivers env name) k = Some rs
                           \<and> (\<forall>receiver \<in> set rs. receiver \<notin> set cycle)))))"
proof -
  have a: "(\<forall>s'. r = Completed s' \<longrightarrow> cycle_received_inputs s')
       \<and> (\<forall>s'. r = Stuck s' \<longrightarrow>
            \<not> cycle_received_inputs s' \<and> run_queue s' = [] \<and> waiting_queue s' \<noteq> []
            \<and> is_stuck_in_a_loop env (waiting_queue s'))"
  proof (cases "initial_run_queue cycle component_name")
    case (Inl e)
    with assms show ?thesis by (auto simp: run_subgraph_def)
  next
    case (Inr rq)
    with assms have
      "sub_loop env cycle fuel
         (s\<lparr>run_queue := rq, waiting_queue := [],
            before_last_waiting_queue := None, last_waiting_queue := None, drains := 0,
            subgraph_outputs := [], cycle_received_inputs := False\<rparr>) = Some r"
      by (simp add: run_subgraph_def)
    from sub_loop_exit [OF this] show ?thesis .
  qed
  have b: "\<forall>t. cycle_received_inputs t \<longrightarrow> sub_loop env cycle (Suc fuel) t = Some (Completed t)"
    by simp
  have c: "\<forall>t. \<not> cycle_received_inputs t \<longrightarrow>
            (cycle_received_inputs (state_of (sub_step env cycle t)) \<longleftrightarrow>
               (\<exists>name rest res t1. run_queue t = name # rest
                  \<and> \<not> (is_lazy_variadic env name
                        \<and> \<not> (\<forall>n \<in> set rest. is_lazy_variadic env n))
                  \<and> component_has_enough_inputs_to_run env name (components_inputs t)
                  \<and> sub_run_and_consume env cycle name (t\<lparr>run_queue := rest\<rparr>) = (Inr res, t1)
                  \<and> (\<forall>k \<in> set (map fst res).
                        \<exists>rs. map_of (output_receivers env name) k = Some rs
                           \<and> (\<forall>receiver \<in> set rs. receiver \<notin> set cycle))))"
  proof (intro allI impI)
    fix t :: "'a sched"
    assume n: "\<not> cycle_received_inputs t"
    show "cycle_received_inputs (state_of (sub_step env cycle t)) \<longleftrightarrow>
               (\<exists>name rest res t1. run_queue t = name # rest
                  \<and> \<not> (is_lazy_variadic env name
                        \<and> \<not> (\<forall>n \<in> set rest. is_lazy_variadic env n))
                  \<and> component_has_enough_inputs_to_run env name (components_inputs t)
                  \<and> sub_run_and_consume env cycle name (t\<lparr>run_queue := rest\<rparr>) = (Inr res, t1)
                  \<and> (\<forall>k \<in> set (map fst res).
                        \<exists>rs. map_of (output_receivers env name) k = Some rs
                           \<and> (\<forall>receiver \<in> set rs. receiver \<notin> set cycle)))"
      unfolding sub_step_cri [OF n] final_output_reached_False ..
  qed
  from a b c show ?thesis by blast
qed

theorem sub_scheduler_exit_witness:
  "\<exists>s'. run_subgraph cyc_env 10 [''a'', ''b''] ''a'' (initial_frame cyc_env cyc_data 0)
           = Some (Stuck s')
       \<and> \<not> cycle_received_inputs s' \<and> run_queue s' = [] \<and> waiting_queue s' \<noteq> []
       \<and> is_stuck_in_a_loop cyc_env (waiting_queue s')"
proof -
  let ?r = "run_subgraph cyc_env 10 [''a'', ''b''] ''a'' (initial_frame cyc_env cyc_data 0)"
  have "exit_of ?r = ByBreak"
    by code_simp
  then obtain s' where r: "?r = Some (Stuck s')"
    by (cases ?r rule: exit_of.cases) auto
  from sub_scheduler_exit [OF r] r show ?thesis by blast
qed

text \<open>The claim as stated fails: in the cycle \<open>a, b\<close> where \<open>b\<close> waits for an input from
  outside, the loop ends by the \<^verbatim>\<open>break\<close> while \<open>cycle_received_inputs\<close> is false.\<close>

theorem sub_scheduler_exit_without_flag:
  "exit_of (run_subgraph cyc_env 10 [''a'', ''b''] ''a'' (initial_frame cyc_env cyc_data 0))
     = ByBreak
   \<and> map_option cycle_received_inputs
       (state_at_exit
          (run_subgraph cyc_env 10 [''a'', ''b''] ''a'' (initial_frame cyc_env cyc_data 0)))
     = Some False"
  by code_simp

section \<open>The visit budget\<close>

text \<open>
  Claim C1 against the code: the check before an invocation is
  \<^verbatim>\<open>visits > max_runs_per_component\<close> in both loops, so a component whose counter equals the
  maximum is still invoked.  With a maximum of 3 the self-looping component runs four
  times (four items are yielded, its counter ends at 4) and the fifth attempt raises
  \<^verbatim>\<open>PipelineMaxComponentRuns\<close>; with a maximum of 0 the two components of the linear chain
  each run once in the main loop.
\<close>

theorem max_runs_off_by_one:
  "exit_of (run (loop_env 3) 20 loop_data 0) = ByError PipelineMaxComponentRuns
   \<and> map_option yielded (state_at_exit (run (loop_env 3) 20 loop_data 0))
       = Some [[(''a'', [(''out'', VInt 0)])], [(''a'', [(''out'', VInt 1)])],
               [(''a'', [(''out'', VInt 2)])], [(''a'', [(''out'', VInt 3)])]]
   \<and> visits (the (state_at_exit (run (loop_env 3) 20 loop_data 0))) ''a'' = 4
   \<and> exit_of (run (chain_env\<lparr>max_runs_per_component := 0\<rparr>) 10 chain_data 0) = ByCondition
   \<and> visits (the (state_at_exit (run (chain_env\<lparr>max_runs_per_component := 0\<rparr>) 10 chain_data 0)))
       ''hello'' = 1"
  by code_simp

section \<open>The convenience driver\<close>

text \<open>
  Claim C2 against the code: with \<^verbatim>\<open>include_outputs_from=None\<close> the comprehension of line
  572 keeps every intermediate output, so the result of the linear chain contains the
  output of \<open>hello\<close>, which is not a leaf; with the empty set the result is exactly
  \<open>final_outputs\<close>.
\<close>

theorem include_outputs_from_none_includes_all:
  "run_async_pipeline chain_env 10 chain_data 0 None
     = Some (Inr [(''hello2'', [(''output'', VInt 2)]), (''hello'', [(''output'', VInt 1)])])
   \<and> run_async_pipeline chain_env 10 chain_data 0 (Some {})
     = Some (Inr [(''hello2'', [(''output'', VInt 2)])])
   \<and> map_option final_outputs (state_at_exit (run chain_env 10 chain_data 0))
     = Some [(''hello2'', [(''output'', VInt 2)])]
   \<and> collect_outputs
       [[(''hello'', [(''output'', VInt 1)])], [(''hello2'', [(''output'', VInt 2)])],
        [(''hello2'', [(''output'', VInt 2)])]] None
     = Inr [(''hello2'', [(''output'', VInt 2)]), (''hello'', [(''output'', VInt 1)])]"
  by code_simp

end
